theory Spec2Isabelle
  imports Complex_Main
begin

section \<open>Reddit vote remover: data model\<close>

text \<open>
  The development embeds the class \<open>RedditVoteRemover\<close> of
  \<open>backend/reddit_remover.py\<close> and of \<open>reddit_vote_remover_simple.py\<close>.
  The methods \<open>_set_cookies\<close>, \<open>_vote\<close> and \<open>_get_voted_posts\<close> are the same
  program in both files and have one model each; \<open>remove_votes\<close> differs and has two.

  Python strings are modelled as \<open>string\<close> over ASCII text. Floats are modelled by the
  rational number they denote, which covers every finite float and keeps their order;
  the literal \<open>0.3\<close> is the double nearest to three tenths. A delay is a finite float:
  one that is infinite or not a number is not modelled. \<open>time.sleep\<close> is the function of
  the standard library. Output printed under
  \<open>debug\<close> is not modelled, and neither is the optional \<open>session\<close> argument of the
  backend constructor: a remover owns a fresh session, as in the standalone script.
\<close>

datatype VoteType = UPVOTED | DOWNVOTED

datatype VoteState = UP | DOWN | NONE

fun VoteType_value :: "VoteType \<Rightarrow> string" where
  "VoteType_value UPVOTED = ''upvoted''"
| "VoteType_value DOWNVOTED = ''downvoted''"

fun VoteState_value :: "VoteState \<Rightarrow> string" where
  "VoteState_value UP = ''UP''"
| "VoteState_value DOWN = ''DOWN''"
| "VoteState_value NONE = ''NONE''"

datatype py_error = ValueError | OverflowError | OSError

definition BASE_URL :: string where
  "BASE_URL = ''https://www.reddit.com''"

definition pacing :: rat where
  \<comment> \<open>the float literal \<open>0.3\<close>\<close>
  "pacing = 5404319552844595 / 18014398509481984"

definition sleep_limit :: rat where
  \<comment> \<open>\<open>time.sleep\<close> counts the length of a pause in nanoseconds, in a signed integer of
      64 bits: the number of seconds that make \<open>2 ^ 63\<close> nanoseconds is the first length
      that does not fit\<close>
  "sleep_limit = 9223372036854775808 / 1000000000"

section \<open>String primitives of Python\<close>

definition str_isspace :: "char \<Rightarrow> bool" where
  \<comment> \<open>the ASCII characters for which \<open>str.isspace\<close> holds; \<open>\s\<close> of \<open>re\<close> is the same class\<close>
  "str_isspace c = (let n = (of_char c :: nat) in (9 \<le> n \<and> n \<le> 13) \<or> (28 \<le> n \<and> n \<le> 32))"

definition str_strip :: "string \<Rightarrow> string" where
  "str_strip s = rev (dropWhile str_isspace (rev (dropWhile str_isspace s)))"

fun str_split_from :: "char \<Rightarrow> string \<Rightarrow> string \<Rightarrow> string list" where
  "str_split_from sep cur [] = [rev cur]"
| "str_split_from sep cur (x # xs) =
     (if x = sep then rev cur # str_split_from sep [] xs else str_split_from sep (x # cur) xs)"

definition str_split :: "char \<Rightarrow> string \<Rightarrow> string list" where
  \<comment> \<open>\<open>s.split(sep)\<close> for a separator of one character\<close>
  "str_split sep s = str_split_from sep [] s"

fun str_split_once_from :: "char \<Rightarrow> string \<Rightarrow> string \<Rightarrow> string list" where
  "str_split_once_from sep cur [] = [rev cur]"
| "str_split_once_from sep cur (x # xs) =
     (if x = sep then [rev cur, xs] else str_split_once_from sep (x # cur) xs)"

definition str_split_once :: "char \<Rightarrow> string \<Rightarrow> string list" where
  \<comment> \<open>\<open>s.split(sep, 1)\<close> for a separator of one character\<close>
  "str_split_once sep s = str_split_once_from sep [] s"

section \<open>Credentials: \<open>_set_cookies\<close> and the constructor\<close>

type_synonym cookiejar = "string \<rightharpoonup> string"

definition cookies_set :: "cookiejar \<Rightarrow> string \<Rightarrow> string \<Rightarrow> cookiejar" where
  \<comment> \<open>\<open>session.cookies.set(key, value, domain='.reddit.com')\<close>: one domain and one
      path, so one cookie per name, the later value replacing the earlier\<close>
  "cookies_set jar key val = jar(key \<mapsto> val)"

text \<open>
  The loop of \<open>_set_cookies\<close> over the pieces of \<open>cookie_string.split(';')\<close>. The
  unpacking \<open>key, value = ...\<close> raises \<open>ValueError\<close> unless the split gives two parts.
\<close>

fun set_cookies_loop :: "string list \<Rightarrow> cookiejar \<Rightarrow> py_error + cookiejar" where
  "set_cookies_loop [] jar = Inr jar"
| "set_cookies_loop (cookie # rest) jar =
     (if CHR ''='' \<notin> set cookie then set_cookies_loop rest jar
      else (case str_split_once (CHR ''='') (str_strip cookie) of
              [key, val] \<Rightarrow> set_cookies_loop rest (cookies_set jar (str_strip key) (str_strip val))
            | _ \<Rightarrow> Inl ValueError))"

definition set_cookies :: "string \<Rightarrow> cookiejar \<Rightarrow> py_error + cookiejar" where
  "set_cookies cookie_string jar = set_cookies_loop (str_split (CHR '';'') cookie_string) jar"

text \<open>
  The reading of the specification: the pieces between semicolons that contain an equals
  sign, each trimmed and cut at its first equals sign, key and value trimmed.
\<close>

definition spec_cookie_pair :: "string \<Rightarrow> string \<times> string" where
  "spec_cookie_pair piece =
     (let t = str_strip piece
      in (str_strip (takeWhile (\<lambda>c. c \<noteq> CHR ''='') t),
          str_strip (tl (dropWhile (\<lambda>c. c \<noteq> CHR ''='') t))))"

definition spec_cookie_pairs :: "string \<Rightarrow> (string \<times> string) list" where
  "spec_cookie_pairs s =
     map spec_cookie_pair (filter (\<lambda>piece. CHR ''='' \<in> set piece) (str_split (CHR '';'') s))"

definition store_pairs :: "cookiejar \<Rightarrow> (string \<times> string) list \<Rightarrow> cookiejar" where
  "store_pairs jar kvs = foldl (\<lambda>j kv. cookies_set j (fst kv) (snd kv)) jar kvs"

section \<open>The two patterns of discovery\<close>

text \<open>
  \<open>POST_ID_PATTERN\<close> is \<open>(?:id|post-id|data-ks-id)="(t3_[a-z0-9]+)"\<close> and
  \<open>AFTER_PATTERN\<close> is \<open>(?:after=|"after":\s*")([^"&]+)\<close>, both compiled with
  \<open>re.I\<close>. A pattern is modelled by the function that matches it at the head of a string
  and returns the text of its group with the rest of the string after the match;
  \<open>findall\<close> scans the string from left to right and resumes after each match, as
  \<open>re.findall\<close> does for a pattern that matches no empty string.
\<close>


definition ascii_lower :: "char \<Rightarrow> char" where
  "ascii_lower c = (let n = (of_char c :: nat) in if 65 \<le> n \<and> n \<le> 90 then char_of (n + 32) else c)"

fun literal :: "string \<Rightarrow> string \<Rightarrow> string option" where
  \<comment> \<open>a literal text, letters compared without case; the result is the rest of the string\<close>
  "literal [] s = Some s"
| "literal (p # ps) [] = None"
| "literal (p # ps) (c # cs) = (if ascii_lower p = ascii_lower c then literal ps cs else None)"

fun alternation ::
  "(string \<Rightarrow> string option) list \<Rightarrow> (string \<Rightarrow> 'a option) \<Rightarrow> string \<Rightarrow> 'a option" where
  \<comment> \<open>\<open>(?:a|b|c)rest\<close>: the alternatives in order, the next one tried when the rest fails\<close>
  "alternation [] rest s = None"
| "alternation (alt # alts) rest s =
     (case alt s of
        None \<Rightarrow> alternation alts rest s
      | Some s1 \<Rightarrow> (case rest s1 of None \<Rightarrow> alternation alts rest s | Some r \<Rightarrow> Some r))"

fun findall_from :: "(string \<Rightarrow> (string \<times> string) option) \<Rightarrow> nat \<Rightarrow> string \<Rightarrow> string list" where
  "findall_from m skip [] = []"
| "findall_from m skip (c # cs) =
     (if 0 < skip then findall_from m (skip - 1) cs
      else (case m (c # cs) of
              None \<Rightarrow> findall_from m 0 cs
            | Some (g, rest) \<Rightarrow> g # findall_from m (length cs - length rest) cs))"

definition findall :: "(string \<Rightarrow> (string \<times> string) option) \<Rightarrow> string \<Rightarrow> string list" where
  "findall m s = findall_from m 0 s"

definition id_char :: "char \<Rightarrow> bool" where
  \<comment> \<open>\<open>[a-z0-9]\<close> under \<open>re.I\<close>\<close>
  "id_char c = (let n = (of_char (ascii_lower c) :: nat) in (97 \<le> n \<and> n \<le> 122) \<or> (48 \<le> n \<and> n \<le> 57))"

definition post_id_group :: "string \<Rightarrow> (string \<times> string) option" where
  \<comment> \<open>\<open>="(t3_[a-z0-9]+)"\<close>: the run of identifier characters is the longest one, since the
      closing quote is not one of them\<close>
  \<open>post_id_group s =
     (case literal ''="'' s of
        None \<Rightarrow> None
      | Some s1 \<Rightarrow>
          (case literal ''t3_'' s1 of
             None \<Rightarrow> None
           | Some s2 \<Rightarrow>
               (let run = takeWhile id_char s2
                in if run = [] then None
                   else (case dropWhile id_char s2 of
                           c # s3 \<Rightarrow> if c = CHR 0x22 then Some (take 3 s1 @ run, s3) else None
                         | [] \<Rightarrow> None))))\<close>

definition POST_ID_PATTERN :: "string \<Rightarrow> (string \<times> string) option" where
  "POST_ID_PATTERN = alternation [literal ''id'', literal ''post-id'', literal ''data-ks-id''] post_id_group"

definition cursor_char :: "char \<Rightarrow> bool" where
  \<comment> \<open>\<open>[^"&]\<close>\<close>
  "cursor_char c = (c \<noteq> CHR 0x22 \<and> c \<noteq> CHR ''&'')"

definition cursor_group :: "string \<Rightarrow> (string \<times> string) option" where
  "cursor_group s =
     (let run = takeWhile cursor_char s
      in if run = [] then None else Some (run, dropWhile cursor_char s))"

definition after_json_key :: "string \<Rightarrow> string option" where
  \<comment> \<open>\<open>"after":\s*"\<close>\<close>
  \<open>after_json_key s =
     (case literal ''"after":'' s of
        None \<Rightarrow> None
      | Some s1 \<Rightarrow>
          (case dropWhile str_isspace s1 of
             c # s2 \<Rightarrow> if c = CHR 0x22 then Some s2 else None
           | [] \<Rightarrow> None))\<close>

definition AFTER_PATTERN :: "string \<Rightarrow> (string \<times> string) option" where
  "AFTER_PATTERN = alternation [literal ''after='', after_json_key] cursor_group"

fun replace_from :: "string \<Rightarrow> string \<Rightarrow> nat \<Rightarrow> string \<Rightarrow> string" where
  "replace_from old new skip [] = []"
| "replace_from old new skip (c # s) =
     (if 0 < skip then replace_from old new (skip - 1) s
      else if take (length old) (c # s) = old then new @ replace_from old new (length old - 1) s
      else c # replace_from old new 0 s)"

definition str_replace :: "string \<Rightarrow> string \<Rightarrow> string \<Rightarrow> string" where
  \<comment> \<open>\<open>s.replace(old, new)\<close> for \<open>old\<close> not empty\<close>
  "str_replace old new s = replace_from old new 0 s"


section \<open>The world\<close>

text \<open>
  The program talks to a server, sleeps and calls a callback. The server is given by two
  scripts: \<open>get_script env n\<close> is what the \<open>n\<close>-th \<open>session.get\<close> of a run receives and
  \<open>post_script env n\<close> what the \<open>n\<close>-th \<open>session.post\<close> receives, so that a statement for
  every \<open>env\<close> covers every behaviour of the server. A reply to a \<open>get\<close> is an exception
  or a response with its status code and text; a reply to a \<open>post\<close> is an exception (of
  the request or of \<open>response.json()\<close>) or the decoded JSON value.

  The order in which Python iterates over a set is not fixed by the language: \<open>set_iter\<close>
  gives it, and \<open>iter_ok\<close> below says that it lists every element once. The search of
  \<open>remove_votes\<close> for a permalink is \<open>permalink_search html short\<close>: the first group
  matched in \<open>html\<close> by the anchor pattern built from the identifier without its prefix.

  A \<open>state\<close> holds what changes during a run: the \<open>Accept\<close> header of the session, the
  number of replies consumed from each script, and the \<open>trace\<close>, a record of what the
  program did. The trace has one entry for each request sent (\<open>EGet\<close>, \<open>EPost\<close>), each
  \<open>time.sleep\<close> (\<open>ESleep\<close>), each completed call of \<open>_vote\<close> with the value it returned
  (\<open>EVote\<close>), each call of \<open>_send_progress\<close> (\<open>ESendProgress\<close>) and each invocation of the
  progress callback (\<open>ECallback\<close>). The text of a progress message is represented by its
  format and arguments.
\<close>

datatype json = JNull | JBool bool | JNum rat | JStr string | JArr "json list"
  | JObj "(string \<times> json) list"

fun truthy :: "json \<Rightarrow> bool" where
  \<comment> \<open>the truth value of a Python value in \<open>if\<close>\<close>
  "truthy JNull = False"
| "truthy (JBool b) = b"
| "truthy (JNum q) = (q \<noteq> 0)"
| "truthy (JStr s) = (s \<noteq> [])"
| "truthy (JArr xs) = (xs \<noteq> [])"
| "truthy (JObj kvs) = (kvs \<noteq> [])"

fun dict_get :: "json \<Rightarrow> string \<Rightarrow> json \<Rightarrow> json option" where
  \<comment> \<open>\<open>value.get(k, d)\<close>; \<open>None\<close> stands for the \<open>AttributeError\<close> of a value that is no dict\<close>
  "dict_get (JObj kvs) k d = Some (case map_of kvs k of None \<Rightarrow> d | Some v \<Rightarrow> v)"
| "dict_get _ k d = None"

definition str_truthy :: "string option \<Rightarrow> bool" where
  \<comment> \<open>the truth value of a value that is \<open>None\<close> or a string\<close>
  "str_truthy v = (v \<noteq> None \<and> v \<noteq> Some [])"

datatype get_reply = GetRaises | GetResponse int string

datatype post_reply = PostRaises | PostJson json

record stats =
  total_count :: nat
  removed_count :: nat
  failed_count :: nat

datatype message =
    MsgNoPosts VoteType string
  | MsgProcessing nat VoteType
  | MsgItem nat nat bool string
  | MsgFinished VoteType

datatype progress_data = Snapshot stats | ItemSnapshot stats string string bool

datatype cb_outcome = Returned | Raised

type_synonym callback = "message \<Rightarrow> string \<Rightarrow> progress_data \<Rightarrow> cb_outcome"

datatype event =
    EGet string "(string \<times> string) list option" "string option"
  | EPost string json
  | ESleep rat
  | EVote string VoteState json
  | ESendProgress message string progress_data
  | ECallback message string progress_data

record state =
  trace :: "event list"
  gets :: nat
  posts :: nat
  accept :: "string option"

record env =
  get_script :: "nat \<Rightarrow> get_reply"
  post_script :: "nat \<Rightarrow> post_reply"
  set_iter :: "string set \<Rightarrow> string list"
  permalink_search :: "string \<Rightarrow> string \<Rightarrow> string option"
  sleep_refused :: "nat \<Rightarrow> rat \<Rightarrow> bool"

record remover =
  cookies :: cookiejar
  csrf_token :: "string option"

definition emit :: "event \<Rightarrow> state \<Rightarrow> state" where
  "emit e st = st\<lparr>trace := trace st @ [e]\<rparr>"

text \<open>
  \<open>time.sleep\<close> raises \<open>ValueError\<close> for a negative length and \<open>OverflowError\<close> for a
  length of \<open>sleep_limit\<close> or more. A shorter pause can still be refused by the operating
  system, with \<open>OSError\<close>: its deadline, the monotonic clock of the machine plus the
  length, must fit the same count of nanoseconds, so the outcome depends on the clock at
  the call. That is left to the environment: \<open>sleep_refused env k secs\<close> tells whether a
  pause of \<open>secs\<close> asked after \<open>k\<close> recorded events is refused. A pause no longer than the
  pacing interval is taken never to be refused.
\<close>

definition time_sleep :: "env \<Rightarrow> rat \<Rightarrow> state \<Rightarrow> py_error + state" where
  "time_sleep env secs st =
     (if secs < 0 then Inl ValueError
      else if sleep_limit \<le> secs then Inl OverflowError
      else if pacing < secs \<and> sleep_refused env (length (trace st)) secs then Inl OSError
      else Inr (emit (ESleep secs) st))"

abbreviation sleep_accepted :: "env \<Rightarrow> rat \<Rightarrow> bool" where
  \<comment> \<open>a length below the limit that the operating system refuses at no point of the run\<close>
  "sleep_accepted env secs \<equiv> secs < sleep_limit \<and> (\<forall>k. \<not> sleep_refused env k secs)"

definition session_get ::
  "env \<Rightarrow> string \<Rightarrow> (string \<times> string) list option \<Rightarrow> state \<Rightarrow> get_reply \<times> state" where
  "session_get env url params st =
     (get_script env (gets st), (emit (EGet url params (accept st)) st)\<lparr>gets := gets st + 1\<rparr>)"

definition session_post :: "env \<Rightarrow> string \<Rightarrow> json \<Rightarrow> state \<Rightarrow> post_reply \<times> state" where
  "session_post env url payload st =
     (post_script env (posts st), (emit (EPost url payload) st)\<lparr>posts := posts st + 1\<rparr>)"


definition configured_state :: state where
  \<comment> \<open>the state after construction: the headers set, nothing done yet\<close>
  "configured_state = \<lparr>trace = [], gets = 0, posts = 0, accept = Some ''application/json''\<rparr>"

definition graphql_url :: string where
  "graphql_url = BASE_URL @ ''/svc/shreddit/graphql''"

definition send_progress ::
  "callback option \<Rightarrow> message \<Rightarrow> string \<Rightarrow> progress_data \<Rightarrow> state \<Rightarrow> state" where
  \<comment> \<open>\<open>_send_progress\<close>: an exception of the callback is swallowed\<close>
  "send_progress callback msg status data st =
     (let st1 = emit (ESendProgress msg status data) st
      in case callback of
           None \<Rightarrow> st1
         | Some f \<Rightarrow>
             (case f msg status data of
                Returned \<Rightarrow> emit (ECallback msg status data) st1
              | Raised \<Rightarrow> emit (ECallback msg status data) st1))"

definition vote :: "env \<Rightarrow> remover \<Rightarrow> string \<Rightarrow> VoteState \<Rightarrow> state \<Rightarrow> json \<times> state" where
  \<comment> \<open>\<open>_vote\<close>: every exception inside \<open>try\<close> gives \<open>False\<close>\<close>
  "vote env rm post_id vote_state st =
     (if \<not> str_truthy (csrf_token rm)
      then (JBool False, emit (EVote post_id vote_state (JBool False)) st)
      else
        (let payload = JObj
               [(''operation'', JStr ''UpdatePostVoteState''),
                (''variables'', JObj [(''input'', JObj
                   [(''postId'', JStr post_id),
                    (''voteState'', JStr (VoteState_value vote_state))])]),
                (''csrf_token'', JStr (the (csrf_token rm)))];
             (reply, st1) = session_post env graphql_url payload st;
             r = (case reply of
                    PostRaises \<Rightarrow> JBool False
                  | PostJson result \<Rightarrow>
                      (case dict_get result ''data'' (JObj []) of
                         None \<Rightarrow> JBool False
                       | Some d \<Rightarrow>
                           (case dict_get d ''updatePostVoteState'' (JObj []) of
                              None \<Rightarrow> JBool False
                            | Some u \<Rightarrow>
                                (case dict_get u ''ok'' (JBool False) of
                                   None \<Rightarrow> JBool False
                                 | Some ok \<Rightarrow> ok))))
         in (r, emit (EVote post_id vote_state r) st1)))"

definition raise_for_status :: "int \<Rightarrow> bool" where
  "raise_for_status code = (400 \<le> code \<and> code < 600)"

text \<open>
  The loop \<open>while True\<close> of \<open>_get_voted_posts\<close> with the \<open>try\<close> around it. It may run for
  ever, so it takes fuel, one unit for each iteration: the value \<open>None\<close> says that the loop
  has not returned within the fuel given. The \<open>finally\<close> clause is in \<open>get_voted_posts\<close>.
\<close>

fun get_voted_posts_loop ::
  "nat \<Rightarrow> env \<Rightarrow> string \<Rightarrow> VoteType \<Rightarrow> string set \<Rightarrow> string option \<Rightarrow> state
     \<Rightarrow> (string set \<times> state) option" where
  "get_voted_posts_loop 0 env username vote_type all_post_ids after st = None"
| "get_voted_posts_loop (Suc fuel) env username vote_type all_post_ids after st =
     (let voted_url = BASE_URL @ ''/user/'' @ username @ ''/'' @ VoteType_value vote_type @ ''/'';
          url = (if str_truthy after
                 then BASE_URL @ ''/svc/shreddit/profiles/profile_'' @ VoteType_value vote_type
                        @ ''-more-posts/new/''
                 else voted_url);
          params = (if str_truthy after
                    then Some [(''after'', the after), (''name'', username)] else None);
          (response, st1) = session_get env url params st
      in case response of
           GetRaises \<Rightarrow> Some (all_post_ids, st1)
         | GetResponse status_code html \<Rightarrow>
             if status_code = 404 then Some ({}, st1)
             else if raise_for_status status_code then Some (all_post_ids, st1)
             else
               (let post_ids = set (findall POST_ID_PATTERN html);
                    all_post_ids' = all_post_ids \<union> post_ids;
                    after_matches = findall AFTER_PATTERN html;
                    next_after = (case after_matches of
                                    [] \<Rightarrow> None
                                  | m # _ \<Rightarrow> Some (str_replace ''%3D'' ''='' m))
                in if \<not> str_truthy next_after \<or> next_after = after \<or> post_ids = {}
                   then Some (all_post_ids', st1)
                   else (case time_sleep env pacing st1 of
                           Inl e \<Rightarrow> Some (all_post_ids', st1)
                         | Inr st2 \<Rightarrow>
                             get_voted_posts_loop fuel env username vote_type all_post_ids'
                               next_after st2)))"

definition html_accept :: string where
  "html_accept = ''text/html,application/xhtml+xml,application/xml;q=0.9,*/*;q=0.8''"

definition get_voted_posts ::
  "nat \<Rightarrow> env \<Rightarrow> string \<Rightarrow> VoteType \<Rightarrow> state \<Rightarrow> (string set \<times> state) option" where
  "get_voted_posts fuel env username vote_type st =
     (let original_accept = accept st
      in case get_voted_posts_loop fuel env username vote_type {} None
                (st\<lparr>accept := Some html_accept\<rparr>) of
           None \<Rightarrow> None
         | Some (ids, st') \<Rightarrow>
             Some (ids, if str_truthy original_accept then st'\<lparr>accept := original_accept\<rparr>
                        else st'))"

text \<open>The \<open>try\<close> block of \<open>remove_votes\<close> that fills \<open>post_url_map\<close>.\<close>

definition resolve_permalinks ::
  "env \<Rightarrow> string \<Rightarrow> VoteType \<Rightarrow> string set \<Rightarrow> state \<Rightarrow> (string \<rightharpoonup> string) \<times> state" where
  "resolve_permalinks env username vote_type post_ids st =
     (if post_ids \<noteq> {} \<and> username \<noteq> []
      then
        (let voted_url = BASE_URL @ ''/user/'' @ username @ ''/'' @ VoteType_value vote_type @ ''/'';
             (first_html_resp, st1) = session_get env voted_url None st
         in case first_html_resp of
              GetRaises \<Rightarrow> (Map.empty, st1)
            | GetResponse status_code html \<Rightarrow>
                if status_code = 200
                then ((\<lambda>post_id.
                         if post_id \<in> post_ids
                         then (case permalink_search env html (drop 3 post_id) of
                                 None \<Rightarrow> None
                               | Some sub_url \<Rightarrow>
                                   Some (if take 1 sub_url = ''/''
                                         then ''https://www.reddit.com'' @ sub_url
                                         else sub_url))
                         else None), st1)
                else (Map.empty, st1))
      else (Map.empty, st))"

text \<open>
  The \<open>for\<close> loop of \<open>remove_votes\<close> in the backend, over the identifiers in the order of
  iteration, \<open>i\<close> counting from one.
\<close>

fun remove_votes_loop ::
  "env \<Rightarrow> remover \<Rightarrow> VoteState \<Rightarrow> rat \<Rightarrow> callback option \<Rightarrow> (string \<rightharpoonup> string) \<Rightarrow> nat
     \<Rightarrow> string list \<Rightarrow> stats \<Rightarrow> state \<Rightarrow> py_error + stats \<times> state" where
  "remove_votes_loop env rm vote_state delay callback post_url_map i [] stats st = Inr (stats, st)"
| "remove_votes_loop env rm vote_state delay callback post_url_map i (post_id # rest) stats st =
     (let (r1, st1) = vote env rm post_id vote_state st
      in case time_sleep env pacing st1 of
           Inl e \<Rightarrow> Inl e
         | Inr st2 \<Rightarrow>
             (let (r2, st3) = vote env rm post_id NONE st2;
                  success = truthy r2;
                  stats' = (if success then stats\<lparr>removed_count := removed_count stats + 1\<rparr>
                            else stats\<lparr>failed_count := failed_count stats + 1\<rparr>);
                  msg = MsgItem i (total_count stats') success post_id;
                  url = (case post_url_map post_id of
                           Some u \<Rightarrow> u
                         | None \<Rightarrow> ''https://www.reddit.com/comments/'' @ drop 3 post_id);
                  st4 = (if callback \<noteq> None
                         then send_progress callback msg
                                (if success then ''success'' else ''error'')
                                (ItemSnapshot stats' post_id url success) st3
                         else st3)
              in if i < total_count stats'
                 then (case time_sleep env (max pacing delay) st4 of
                         Inl e \<Rightarrow> Inl e
                       | Inr st5 \<Rightarrow>
                           remove_votes_loop env rm vote_state delay callback post_url_map
                             (i + 1) rest stats' st5)
                 else remove_votes_loop env rm vote_state delay callback post_url_map
                        (i + 1) rest stats' st4))"

text \<open>
  \<open>remove_votes\<close> in the backend: \<open>remove_votes_found\<close> is its body after the call of
  \<open>_get_voted_posts\<close>, for the set that the call returned.
\<close>

definition remove_votes_found ::
  "env \<Rightarrow> remover \<Rightarrow> string \<Rightarrow> VoteType \<Rightarrow> rat \<Rightarrow> callback option \<Rightarrow> string set \<Rightarrow> state
     \<Rightarrow> py_error + stats \<times> state" where
  "remove_votes_found env rm username vote_type delay callback post_ids st =
     (let vote_state = (if vote_type = UPVOTED then UP else DOWN);
          stats = \<lparr>total_count = card post_ids, removed_count = 0, failed_count = 0\<rparr>
      in if post_ids = {}
         then Inr (stats, send_progress callback (MsgNoPosts vote_type username) ''warning''
                            (Snapshot stats) st)
         else
           (let st1 = send_progress callback (MsgProcessing (card post_ids) vote_type) ''info''
                        (Snapshot stats) st;
                (post_url_map, st2) = resolve_permalinks env username vote_type post_ids st1
            in case remove_votes_loop env rm vote_state delay callback post_url_map 1
                      (set_iter env post_ids) stats st2 of
                 Inl e \<Rightarrow> Inl e
               | Inr (stats', st3) \<Rightarrow>
                   Inr (stats', send_progress callback (MsgFinished vote_type) ''success''
                                  (Snapshot stats') st3)))"

definition remove_votes ::
  "nat \<Rightarrow> env \<Rightarrow> remover \<Rightarrow> string \<Rightarrow> VoteType \<Rightarrow> rat \<Rightarrow> callback option \<Rightarrow> state
     \<Rightarrow> (py_error + stats \<times> state) option" where
  "remove_votes fuel env rm username vote_type delay callback st =
     (case get_voted_posts fuel env username vote_type st of
        None \<Rightarrow> None
      | Some (post_ids, st1) \<Rightarrow>
          Some (remove_votes_found env rm username vote_type delay callback post_ids st1))"

text \<open>
  \<open>remove_votes\<close> in the standalone script, in the same three parts; \<open>n\<close> is
  \<open>len(post_ids)\<close>.
\<close>

fun simple_remove_votes_loop ::
  "env \<Rightarrow> remover \<Rightarrow> VoteState \<Rightarrow> rat \<Rightarrow> nat \<Rightarrow> nat \<Rightarrow> string list \<Rightarrow> nat \<Rightarrow> nat \<Rightarrow> state
     \<Rightarrow> py_error + (nat \<times> nat) \<times> state" where
  "simple_remove_votes_loop env rm vote_state delay n i [] removed_n failed_n st =
     Inr ((removed_n, failed_n), st)"
| "simple_remove_votes_loop env rm vote_state delay n i (post_id # rest) removed_n failed_n st =
     (let (r1, st1) = vote env rm post_id vote_state st
      in case time_sleep env pacing st1 of
           Inl e \<Rightarrow> Inl e
         | Inr st2 \<Rightarrow>
             (let (r2, st3) = vote env rm post_id NONE st2;
                  removed_count' = (if truthy r2 then removed_n + 1 else removed_n);
                  failed_count' = (if truthy r2 then failed_n else failed_n + 1)
              in if i < n
                 then (case time_sleep env delay st3 of
                         Inl e \<Rightarrow> Inl e
                       | Inr st4 \<Rightarrow>
                           simple_remove_votes_loop env rm vote_state delay n (i + 1) rest
                             removed_count' failed_count' st4)
                 else simple_remove_votes_loop env rm vote_state delay n (i + 1) rest
                        removed_count' failed_count' st3))"

definition simple_remove_votes_found ::
  "env \<Rightarrow> remover \<Rightarrow> VoteType \<Rightarrow> rat \<Rightarrow> string set \<Rightarrow> state \<Rightarrow> py_error + stats \<times> state" where
  "simple_remove_votes_found env rm vote_type delay post_ids st =
     (let vote_state = (if vote_type = UPVOTED then UP else DOWN)
      in if post_ids = {} then Inr (\<lparr>total_count = 0, removed_count = 0, failed_count = 0\<rparr>, st)
         else (case simple_remove_votes_loop env rm vote_state delay (card post_ids) 1
                      (set_iter env post_ids) 0 0 st of
                 Inl e \<Rightarrow> Inl e
               | Inr ((removed_n, failed_n), st') \<Rightarrow>
                   Inr (\<lparr>total_count = card post_ids, removed_count = removed_n, failed_count = failed_n\<rparr>, st')))"

definition simple_remove_votes ::
  "nat \<Rightarrow> env \<Rightarrow> remover \<Rightarrow> string \<Rightarrow> VoteType \<Rightarrow> rat \<Rightarrow> state
     \<Rightarrow> (py_error + stats \<times> state) option" where
  "simple_remove_votes fuel env rm username vote_type delay st =
     (case get_voted_posts fuel env username vote_type st of
        None \<Rightarrow> None
      | Some (post_ids, st1) \<Rightarrow>
          Some (simple_remove_votes_found env rm vote_type delay post_ids st1))"

section \<open>Reading the record of a run\<close>

text \<open>
  The \<open>trace\<close> of a state records what the program did, in order: requests sent, pauses,
  completed calls of \<open>_vote\<close> with the value returned, calls of \<open>_send_progress\<close> and
  invocations of the progress callback. The functions below select one kind of entry.
\<close>

fun vote_call :: "event \<Rightarrow> (string \<times> VoteState \<times> json) option" where
  "vote_call (EVote post_id vote_state r) = Some (post_id, vote_state, r)"
| "vote_call _ = None"

definition vote_calls :: "event list \<Rightarrow> (string \<times> VoteState \<times> json) list" where
  "vote_calls tr = List.map_filter vote_call tr"

fun network_post :: "event \<Rightarrow> (string \<times> json) option" where
  "network_post (EPost url payload) = Some (url, payload)"
| "network_post _ = None"

definition network_posts :: "event list \<Rightarrow> (string \<times> json) list" where
  "network_posts tr = List.map_filter network_post tr"

datatype pace_item = PVote string VoteState | PSleep rat

fun pace_of :: "event \<Rightarrow> pace_item option" where
  "pace_of (EVote post_id vote_state r) = Some (PVote post_id vote_state)"
| "pace_of (ESleep secs) = Some (PSleep secs)"
| "pace_of _ = None"

definition pace_view :: "event list \<Rightarrow> pace_item list" where
  "pace_view tr = List.map_filter pace_of tr"

fun progress_send :: "event \<Rightarrow> (message \<times> string \<times> progress_data) option" where
  "progress_send (ESendProgress msg status data) = Some (msg, status, data)"
| "progress_send _ = None"

definition progress_sends :: "event list \<Rightarrow> (message \<times> string \<times> progress_data) list" where
  "progress_sends tr = List.map_filter progress_send tr"

fun callback_call :: "event \<Rightarrow> (message \<times> string \<times> progress_data) option" where
  "callback_call (ECallback msg status data) = Some (msg, status, data)"
| "callback_call _ = None"

definition callback_calls :: "event list \<Rightarrow> (message \<times> string \<times> progress_data) list" where
  "callback_calls tr = List.map_filter callback_call tr"

fun item_snapshot :: "event \<Rightarrow> stats option" where
  "item_snapshot (ECallback msg status (ItemSnapshot s post_id url success)) = Some s"
| "item_snapshot _ = None"

definition item_snapshots :: "event list \<Rightarrow> stats list" where
  \<comment> \<open>the statistics carried by the per-item progress events, in order\<close>
  "item_snapshots tr = List.map_filter item_snapshot tr"

definition iter_ok :: "env \<Rightarrow> string set \<Rightarrow> bool" where
  \<comment> \<open>iterating a Python set visits each of its elements once\<close>
  "iter_ok env S = (set (set_iter env S) = S \<and> distinct (set_iter env S))"

section \<open>Pages of a listing\<close>

definition page_ids :: "string \<Rightarrow> string set" where
  "page_ids html = set (findall POST_ID_PATTERN html)"

definition page_cursor :: "string \<Rightarrow> string option" where
  "page_cursor html =
     (case findall AFTER_PATTERN html of
        [] \<Rightarrow> None
      | m # _ \<Rightarrow> Some (str_replace ''%3D'' ''='' m))"

definition stops :: "string option \<Rightarrow> string \<Rightarrow> bool" where
  \<comment> \<open>the test before \<open>break\<close>, for the cursor \<open>after\<close> of the previous iteration\<close>
  "stops after html =
     (page_cursor html = None \<or> page_cursor html = after \<or> page_ids html = {})"

fun fetched :: "get_reply \<Rightarrow> string option" where
  \<comment> \<open>the text of a reply that is neither an exception nor an error status\<close>
  "fetched GetRaises = None"
| "fetched (GetResponse status_code html) =
     (if status_code = 404 \<or> raise_for_status status_code then None else Some html)"

fun continues :: "env \<Rightarrow> nat \<Rightarrow> string option \<Rightarrow> nat \<Rightarrow> bool" where
  \<comment> \<open>the \<open>k\<close> replies from position \<open>g\<close> on are fetched pages and none meets a stop test,
      the cursor before the first one being \<open>after\<close>\<close>
  "continues env g after 0 = True"
| "continues env g after (Suc k) =
     (case fetched (get_script env g) of
        None \<Rightarrow> False
      | Some html \<Rightarrow> \<not> stops after html \<and> continues env (Suc g) (page_cursor html) k)"

fun cursor_after :: "env \<Rightarrow> nat \<Rightarrow> string option \<Rightarrow> nat \<Rightarrow> string option" where
  "cursor_after env g after 0 = after"
| "cursor_after env g after (Suc k) =
     (case fetched (get_script env g) of
        None \<Rightarrow> None
      | Some html \<Rightarrow> cursor_after env (Suc g) (page_cursor html) k)"

fun ids_of_pages :: "env \<Rightarrow> nat \<Rightarrow> nat \<Rightarrow> string set" where
  "ids_of_pages env g 0 = {}"
| "ids_of_pages env g (Suc k) =
     (case fetched (get_script env g) of None \<Rightarrow> {} | Some html \<Rightarrow> page_ids html)
       \<union> ids_of_pages env (Suc g) k"

definition raises :: "get_reply \<Rightarrow> bool" where
  \<comment> \<open>the request raised, or \<open>raise_for_status\<close> did\<close>
  "raises reply =
     (case reply of
        GetRaises \<Rightarrow> True
      | GetResponse status_code html \<Rightarrow> status_code \<noteq> 404 \<and> raise_for_status status_code)"

fun first_seen :: "string list \<Rightarrow> string list \<Rightarrow> string list" where
  "first_seen seen [] = []"
| "first_seen seen (x # xs) =
     (if x \<in> set seen then first_seen seen xs else x # first_seen (x # seen) xs)"

definition spec_discovery_order :: "string list \<Rightarrow> string list" where
  \<comment> \<open>the identifiers of a sequence of pages in the order in which they are first met\<close>
  "spec_discovery_order htmls = first_seen [] (concat (map (findall POST_ID_PATTERN) htmls))"

fun sep_by :: "'a list \<Rightarrow> 'a list list \<Rightarrow> 'a list" where
  "sep_by s [] = []"
| "sep_by s [b] = b"
| "sep_by s (b # c # bs) = b @ s @ sep_by s (c # bs)"

definition spec_pacing :: "VoteState \<Rightarrow> rat \<Rightarrow> string list \<Rightarrow> pace_item list" where
  \<comment> \<open>two calls per item with the fixed pause between them, and one pause of \<open>gap\<close>
      between consecutive items\<close>
  "spec_pacing vote_state gap ids =
     sep_by [PSleep gap] (map (\<lambda>p. [PVote p vote_state, PSleep pacing, PVote p NONE]) ids)"

section \<open>Sample runs\<close>

definition pass_trace :: "(py_error + stats \<times> state) option \<Rightarrow> event list" where
  \<comment> \<open>the record left by a pass that returned\<close>
  "pass_trace result = (case result of Some (Inr (s, st)) \<Rightarrow> trace st | _ \<Rightarrow> [])"

definition page_b :: string where
  \<open>page_b = ''<a id="t3_b" href="?after=c1">''\<close>

definition page_a :: string where
  \<open>page_a = ''<a id="t3_a">''\<close>

definition pair_page :: string where
  \<open>pair_page = ''id="t3_a" id="t3_b"''\<close>

definition cycle_a :: string where
  \<open>cycle_a = ''id="t3_a" after=A''\<close>

definition cycle_b :: string where
  \<open>cycle_b = ''id="t3_b" after=B''\<close>

definition first_then :: "get_reply \<Rightarrow> nat \<Rightarrow> get_reply" where
  \<comment> \<open>\<open>page_b\<close> for the first request, \<open>reply\<close> for every later one\<close>
  "first_then reply k = (if k = 0 then GetResponse 200 page_b else reply)"

definition ok_reply :: post_reply where
  "ok_reply =
     PostJson (JObj [(''data'', JObj [(''updatePostVoteState'', JObj [(''ok'', JBool True)])])])"

definition sample_env :: env where
  "sample_env =
     \<lparr>get_script = first_then (GetResponse 200 page_a),
      post_script = (\<lambda>k. if k = 1 then ok_reply else PostJson (JObj [])),
      set_iter = (\<lambda>S. filter (\<lambda>p. p \<in> S) [''t3_a'', ''t3_b'']),
      permalink_search = (\<lambda>html short. None),
      sleep_refused = (\<lambda>k secs. False)\<rparr>"

definition pair_env :: env where
  "pair_env = sample_env\<lparr>get_script := (\<lambda>k. GetResponse 200 pair_page)\<rparr>"

definition private_env :: env where
  "private_env = sample_env\<lparr>get_script := first_then (GetResponse 404 [])\<rparr>"

definition failing_env :: env where
  "failing_env = sample_env\<lparr>get_script := first_then GetRaises\<rparr>"

definition cycle_env :: env where
  "cycle_env =
     sample_env\<lparr>get_script := (\<lambda>k. GetResponse 200 (if even k then cycle_a else cycle_b))\<rparr>"

definition sample_remover :: remover where
  "sample_remover = \<lparr>cookies = [''csrf_token'' \<mapsto> ''tok''], csrf_token = Some ''tok''\<rparr>"

definition raising_callback :: callback where
  "raising_callback msg status data = Raised"

section \<open>Cookie parsing\<close>

lemma split_from_pieces:
  "str_split_from sep cur s \<noteq> [] \<and>
   concat (map (\<lambda>p. sep # p) (str_split_from sep cur s)) = sep # rev cur @ s"
  by (induction s arbitrary: cur) auto

lemma split_from_no_sep:
  "sep \<notin> set cur \<Longrightarrow> p \<in> set (str_split_from sep cur s) \<Longrightarrow> sep \<notin> set p"
proof (induction s arbitrary: cur)
  case Nil
  then show ?case by auto
next
  case (Cons x xs)
  show ?case
  proof (cases "x = sep")
    case True
    with Cons.prems have "p = rev cur \<or> p \<in> set (str_split_from sep [] xs)"
      by simp
    then show ?thesis
      using Cons.IH [of "[]"] Cons.prems(1) by auto
  next
    case False
    with Cons.prems have "p \<in> set (str_split_from sep (x # cur) xs)"
      by simp
    then show ?thesis
      using Cons.IH [of "x # cur"] Cons.prems(1) False by auto
  qed
qed

lemma split_once_from_found:
  "sep \<in> set s \<Longrightarrow>
   str_split_once_from sep cur s =
     [rev cur @ takeWhile (\<lambda>c. c \<noteq> sep) s, tl (dropWhile (\<lambda>c. c \<noteq> sep) s)]"
  by (induction s arbitrary: cur) auto

lemma split_once_found:
  "sep \<in> set s \<Longrightarrow>
   str_split_once sep s = [takeWhile (\<lambda>c. c \<noteq> sep) s, tl (dropWhile (\<lambda>c. c \<noteq> sep) s)]"
  by (simp add: str_split_once_def split_once_from_found)

lemma isspace_equals: "\<not> str_isspace (CHR ''='')"
  by (simp add: str_isspace_def)

lemma strip_keeps_equals: "CHR ''='' \<in> set s \<Longrightarrow> CHR ''='' \<in> set (str_strip s)"
proof -
  have keep: "CHR ''='' \<in> set (dropWhile str_isspace t)" if "CHR ''='' \<in> set t" for t
    using that isspace_equals by (induction t) auto
  assume "CHR ''='' \<in> set s"
  then have "CHR ''='' \<in> set (rev (dropWhile str_isspace s))"
    using keep by simp
  then have "CHR ''='' \<in> set (dropWhile str_isspace (rev (dropWhile str_isspace s)))"
    by (rule keep)
  then show ?thesis
    by (simp add: str_strip_def)
qed

lemma set_cookies_loop_pairs:
  "set_cookies_loop pieces jar =
     Inr (store_pairs jar
            (map spec_cookie_pair (filter (\<lambda>piece. CHR ''='' \<in> set piece) pieces)))"
proof (induction pieces arbitrary: jar)
  case Nil
  show ?case by (simp add: store_pairs_def)
next
  case (Cons piece pieces)
  show ?case
  proof (cases "CHR ''='' \<in> set piece")
    case False
    then show ?thesis using Cons.IH by simp
  next
    case True
    then have "str_split_once (CHR ''='') (str_strip piece) =
        [takeWhile (\<lambda>c. c \<noteq> CHR ''='') (str_strip piece),
         tl (dropWhile (\<lambda>c. c \<noteq> CHR ''='') (str_strip piece))]"
      by (simp add: split_once_found strip_keeps_equals)
    with True show ?thesis
      using Cons.IH by (simp add: store_pairs_def spec_cookie_pair_def Let_def)
  qed
qed

lemma spec_cookie_pairs_example:
  "spec_cookie_pairs ''a=1; b=2=2; malformed'' = [(''a'', ''1''), (''b'', ''2=2'')]"
  by (simp add: spec_cookie_pairs_def spec_cookie_pair_def str_split_def str_strip_def str_isspace_def)

text \<open>
  Claim C8. \<open>_set_cookies\<close> never raises and stores exactly the pairs that the
  specification describes: the input is split on semicolons, pieces without an equals
  sign are skipped, every other piece is trimmed and cut at its first equals sign only,
  and the trimmed key is bound to the trimmed value. On \<open>a=1; b=2=2; malformed\<close>
  the stored cookies are \<open>a\<close> with value \<open>1\<close> and \<open>b\<close> with value \<open>2=2\<close>, and nothing
  else.
\<close>

theorem set_cookies_parses_pairs:
  "set_cookies s jar = Inr (store_pairs jar (spec_cookie_pairs s)) \<and>
   spec_cookie_pairs ''a=1; b=2=2; malformed'' = [(''a'', ''1''), (''b'', ''2=2'')] \<and>
   set_cookies ''a=1; b=2=2; malformed'' Map.empty = Inr [''a'' \<mapsto> ''1'', ''b'' \<mapsto> ''2=2'']"
proof -
  have general: "set_cookies t j = Inr (store_pairs j (spec_cookie_pairs t))" for t j
    by (simp add: set_cookies_def spec_cookie_pairs_def set_cookies_loop_pairs)
  have "set_cookies ''a=1; b=2=2; malformed'' Map.empty =
      Inr (store_pairs Map.empty [(''a'', ''1''), (''b'', ''2=2'')])"
    by (simp only: general spec_cookie_pairs_example)
  then show ?thesis
    using general spec_cookie_pairs_example by (simp add: store_pairs_def cookies_set_def)
qed

section \<open>Extraction\<close>

lemma alternation_Some:
  "alternation alts rest s = Some r \<Longrightarrow> \<exists>s1. rest s1 = Some r"
  by (induction alts) (auto split: option.splits)

lemma cursor_group_nonempty: "cursor_group s = Some (g, r) \<Longrightarrow> g \<noteq> []"
  by (auto simp: cursor_group_def Let_def split: if_splits)

lemma AFTER_PATTERN_nonempty: "AFTER_PATTERN s = Some (g, r) \<Longrightarrow> g \<noteq> []"
  unfolding AFTER_PATTERN_def
  by (drule alternation_Some) (auto dest: cursor_group_nonempty)

lemma findall_from_matches:
  "g \<in> set (findall_from m skip s) \<Longrightarrow> \<exists>t r. m t = Some (g, r)"
proof (induction s arbitrary: skip)
  case Nil
  then show ?case by simp
next
  case (Cons c cs)
  show ?case
  proof (cases "0 < skip")
    case True
    with Cons show ?thesis by auto
  next
    case False
    show ?thesis
    proof (cases "m (c # cs)")
      case None
      with False Cons show ?thesis by auto
    next
      case (Some gr)
      obtain g' r' where gr: "gr = (g', r')" by (cases gr)
      with Some False Cons.prems
      have "g = g' \<or> g \<in> set (findall_from m (length cs - length r') cs)"
        by simp
      then show ?thesis
        using Some gr Cons.IH by auto
    qed
  qed
qed

lemma str_replace_nonempty: "s \<noteq> [] \<Longrightarrow> new \<noteq> [] \<Longrightarrow> str_replace old new s \<noteq> []"
  by (cases s) (auto simp: str_replace_def)

lemma page_cursor_nonempty: "page_cursor html \<noteq> Some []"
proof (cases "findall AFTER_PATTERN html")
  case Nil
  then show ?thesis by (simp add: page_cursor_def)
next
  case (Cons m ms)
  then have "m \<in> set (findall_from AFTER_PATTERN 0 html)"
    by (simp add: findall_def)
  then have "m \<noteq> []"
    using findall_from_matches AFTER_PATTERN_nonempty by blast
  then have "str_replace ''%3D'' ''='' m \<noteq> []"
    by (simp add: str_replace_nonempty)
  with Cons show ?thesis
    by (simp add: page_cursor_def)
qed

lemma str_truthy_page_cursor: "str_truthy (page_cursor html) = (page_cursor html \<noteq> None)"
  using page_cursor_nonempty by (simp add: str_truthy_def)

section \<open>Primitive steps\<close>

lemma pacing_pos: "0 < pacing"
  by (simp add: pacing_def)

lemma pacing_below_limit: "pacing < sleep_limit"
  by (simp add: pacing_def sleep_limit_def)

lemma time_sleep_pacing: "time_sleep env pacing st = Inr (emit (ESleep pacing) st)"
  using pacing_pos pacing_below_limit by (simp add: time_sleep_def)

lemma time_sleep_clamped:
  "time_sleep env (max pacing delay) st =
     (if sleep_limit \<le> delay then Inl OverflowError
      else if pacing < delay \<and> sleep_refused env (length (trace st)) (max pacing delay)
      then Inl OSError
      else Inr (emit (ESleep (max pacing delay)) st))"
  using pacing_pos pacing_below_limit by (auto simp: time_sleep_def max_def)

lemma emit_fields:
  "trace (emit e st) = trace st @ [e]"
  "gets (emit e st) = gets st"
  "posts (emit e st) = posts st"
  "accept (emit e st) = accept st"
  by (simp_all add: emit_def)

lemma map_filter_append: "List.map_filter f (xs @ ys) = List.map_filter f xs @ List.map_filter f ys"
  by (simp add: List.map_filter_def)

lemma map_filter_single: "List.map_filter f [x] = (case f x of None \<Rightarrow> [] | Some y \<Rightarrow> [y])"
  by (simp add: List.map_filter_def split: option.splits)


lemma session_post_fields:
  "session_post env url payload st = (reply, st') \<Longrightarrow>
   trace st' = trace st @ [EPost url payload] \<and> gets st' = gets st \<and>
   posts st' = posts st + 1 \<and> accept st' = accept st"
  by (auto simp: session_post_def emit_def)

lemma vote_no_token:
  "\<not> str_truthy (csrf_token rm) \<Longrightarrow>
   vote env rm post_id vote_state st =
     (JBool False, emit (EVote post_id vote_state (JBool False)) st)"
  by (simp add: vote_def)

lemma vote_trace:
  assumes "vote env rm post_id vote_state st = (r, st')"
  shows "\<exists>net. trace st' = trace st @ net @ [EVote post_id vote_state r] \<and>
           (\<forall>e \<in> set net. \<exists>url payload. e = EPost url payload) \<and>
           gets st' = gets st \<and> accept st' = accept st"
proof (cases "str_truthy (csrf_token rm)")
  case False
  with assms show ?thesis
    by (auto simp: vote_no_token emit_def)
next
  case True
  obtain reply st1 where sp: "session_post env graphql_url
      (JObj [(''operation'', JStr ''UpdatePostVoteState''),
             (''variables'', JObj [(''input'', JObj
                [(''postId'', JStr post_id),
                 (''voteState'', JStr (VoteState_value vote_state))])]),
             (''csrf_token'', JStr (the (csrf_token rm)))]) st = (reply, st1)"
    by (cases "session_post env graphql_url
      (JObj [(''operation'', JStr ''UpdatePostVoteState''),
             (''variables'', JObj [(''input'', JObj
                [(''postId'', JStr post_id),
                 (''voteState'', JStr (VoteState_value vote_state))])]),
             (''csrf_token'', JStr (the (csrf_token rm)))]) st")
  from session_post_fields [OF sp] True assms sp show ?thesis
    by (auto simp: vote_def Let_def emit_def)
qed

lemma vote_proj:
  assumes "\<And>url payload. f (EPost url payload) = None"
    and "vote env rm post_id vote_state st = (r, st')"
  shows "List.map_filter f (trace st') =
         List.map_filter f (trace st) @ List.map_filter f [EVote post_id vote_state r]"
proof -
  from vote_trace [OF assms(2)] obtain net where
    tr: "trace st' = trace st @ net @ [EVote post_id vote_state r]" and
    net: "\<forall>e \<in> set net. \<exists>url payload. e = EPost url payload"
    by blast
  have "List.map_filter f net = []"
    using net assms(1) by (induction net) (auto simp: List.map_filter_def)
  with tr show ?thesis
    by (simp add: map_filter_append)
qed

lemma send_progress_fields:
  "trace (send_progress callback msg status data st) =
     trace st @ ESendProgress msg status data #
       (case callback of None \<Rightarrow> [] | Some f \<Rightarrow> [ECallback msg status data])"
  "gets (send_progress callback msg status data st) = gets st"
  "posts (send_progress callback msg status data st) = posts st"
  "accept (send_progress callback msg status data st) = accept st"
  by (auto simp: send_progress_def emit_def Let_def split: option.splits cb_outcome.splits)


text \<open>
  A rule for the loop of \<open>remove_votes\<close>: the loop returns when \<open>time.sleep\<close> accepts the
  pause between two items, and a property that holds of the empty loop and is carried backwards over one
  turn holds of every result that the loop returns.
\<close>

lemma remove_votes_loop_rule:
  assumes base: "\<And>i stats st. P i [] stats st (stats, st)"
    and step: "\<And>i post_id rest stats st r1 st1 r2 st3 stats1 st4 res.
      vote env rm post_id vote_state st = (r1, st1) \<Longrightarrow>
      vote env rm post_id NONE (emit (ESleep pacing) st1) = (r2, st3) \<Longrightarrow>
      stats1 = (if truthy r2 then stats\<lparr>removed_count := removed_count stats + 1\<rparr>
                else stats\<lparr>failed_count := failed_count stats + 1\<rparr>) \<Longrightarrow>
      st4 = (if callback \<noteq> None
             then send_progress callback (MsgItem i (total_count stats1) (truthy r2) post_id)
                    (if truthy r2 then ''success'' else ''error'')
                    (ItemSnapshot stats1 post_id
                       (case post_url_map post_id of
                          Some u \<Rightarrow> u
                        | None \<Rightarrow> ''https://www.reddit.com/comments/'' @ drop 3 post_id)
                       (truthy r2)) st3
             else st3) \<Longrightarrow>
      P (i + 1) rest stats1
        (if i < total_count stats1 then emit (ESleep (max pacing delay)) st4 else st4) res \<Longrightarrow>
      P i (post_id # rest) stats st res"
  shows "(sleep_accepted env (max pacing delay) \<longrightarrow>
           (\<exists>res. remove_votes_loop env rm vote_state delay callback post_url_map i ps stats st =
              Inr res)) \<and>
         (\<forall>res. remove_votes_loop env rm vote_state delay callback post_url_map i ps stats st =
              Inr res \<longrightarrow>
            P i ps stats st res)"
proof (induction ps arbitrary: i stats st)
  case Nil
  show ?case by (simp add: base)
next
  case (Cons post_id rest)
  obtain r1 st1 where v1: "vote env rm post_id vote_state st = (r1, st1)"
    by (cases "vote env rm post_id vote_state st")
  obtain r2 st3 where v2: "vote env rm post_id NONE (emit (ESleep pacing) st1) = (r2, st3)"
    by (cases "vote env rm post_id NONE (emit (ESleep pacing) st1)")
  define stats1 where "stats1 = (if truthy r2 then stats\<lparr>removed_count := removed_count stats + 1\<rparr>
                   else stats\<lparr>failed_count := failed_count stats + 1\<rparr>)"
  define st4 where "st4 = (if callback \<noteq> None
                then send_progress callback (MsgItem i (total_count stats1) (truthy r2) post_id)
                       (if truthy r2 then ''success'' else ''error'')
                       (ItemSnapshot stats1 post_id
                          (case post_url_map post_id of
                             Some u \<Rightarrow> u
                           | None \<Rightarrow> ''https://www.reddit.com/comments/'' @ drop 3 post_id)
                          (truthy r2)) st3
                else st3)"
  define st5 where "st5 = (if i < total_count stats1 then emit (ESleep (max pacing delay)) st4 else st4)"
  have unfold: "remove_votes_loop env rm vote_state delay callback post_url_map i (post_id # rest) stats st =
      (if i < total_count stats1
       then (case time_sleep env (max pacing delay) st4 of
               Inl e \<Rightarrow> Inl e
             | Inr st5 \<Rightarrow>
                 remove_votes_loop env rm vote_state delay callback post_url_map (i + 1) rest
                   stats1 st5)
       else remove_votes_loop env rm vote_state delay callback post_url_map (i + 1) rest stats1 st4)"
    unfolding st4_def stats1_def using v1 v2
    by (simp add: time_sleep_pacing Let_def)
  have turn: "remove_votes_loop env rm vote_state delay callback post_url_map i (post_id # rest) stats st =
      (if i < total_count stats1 \<and>
          (sleep_limit \<le> delay \<or>
           pacing < delay \<and> sleep_refused env (length (trace st4)) (max pacing delay))
       then Inl (if sleep_limit \<le> delay then OverflowError else OSError)
       else remove_votes_loop env rm vote_state delay callback post_url_map (i + 1) rest stats1 st5)"
    unfolding unfold time_sleep_clamped st5_def by (auto simp: max_def)
  show ?case
  proof (cases "i < total_count stats1 \<and>
          (sleep_limit \<le> delay \<or>
           pacing < delay \<and> sleep_refused env (length (trace st4)) (max pacing delay))")
    case True
    with turn show ?thesis by auto
  next
    case False
    have "P i (post_id # rest) stats st res"
      if "remove_votes_loop env rm vote_state delay callback post_url_map (i + 1) rest stats1 st5 =
        Inr res" for res
      using step [OF v1 v2 stats1_def st4_def] Cons.IH [of "i + 1" stats1 st5] that
      unfolding st5_def by blast
    with turn False Cons.IH [of "i + 1" stats1 st5] show ?thesis
      by auto
  qed
qed

lemma remove_votes_loop_counts:
  "(sleep_accepted env (max pacing delay) \<longrightarrow>
      (\<exists>res. remove_votes_loop env rm vote_state delay callback post_url_map i ps stats st =
         Inr res)) \<and>
   (\<forall>stats' st'.
      remove_votes_loop env rm vote_state delay callback post_url_map i ps stats st =
        Inr (stats', st') \<longrightarrow>
      total_count stats' = total_count stats \<and>
      removed_count stats' + failed_count stats' =
        removed_count stats + failed_count stats + length ps)"
proof -
  let ?P = "\<lambda>(i::nat) ps stats (st::state) res.
     total_count (fst res) = total_count stats \<and>
     removed_count (fst res) + failed_count (fst res) =
       removed_count stats + failed_count stats + length ps"
  have "(sleep_accepted env (max pacing delay) \<longrightarrow>
           (\<exists>res. remove_votes_loop env rm vote_state delay callback post_url_map i ps stats st =
              Inr res)) \<and>
         (\<forall>res. remove_votes_loop env rm vote_state delay callback post_url_map i ps stats st =
              Inr res \<longrightarrow>
            ?P i ps stats st res)"
    by (rule remove_votes_loop_rule [where P = ?P]) auto
  then have returns: "sleep_accepted env (max pacing delay) \<longrightarrow>
      (\<exists>res. remove_votes_loop env rm vote_state delay callback post_url_map i ps stats st =
         Inr res)"
    and holds: "\<And>res.
      remove_votes_loop env rm vote_state delay callback post_url_map i ps stats st = Inr res \<Longrightarrow>
      ?P i ps stats st res"
    by blast+
  have "total_count stats' = total_count stats \<and>
      removed_count stats' + failed_count stats' =
        removed_count stats + failed_count stats + length ps"
    if "remove_votes_loop env rm vote_state delay callback post_url_map i ps stats st =
      Inr (stats', st')" for stats' st'
    using holds [OF that] by simp
  with returns show ?thesis by blast
qed

text \<open>A delay of \<open>sleep_limit\<close> or more ends the loop after the first of several items.\<close>

lemma remove_votes_loop_overflow:
  assumes "i < total_count stats" and "sleep_limit \<le> delay"
  shows "remove_votes_loop env rm vote_state delay callback post_url_map i (post_id # rest)
           stats st = Inl OverflowError"
proof -
  obtain r1 st1 where v1: "vote env rm post_id vote_state st = (r1, st1)"
    by (cases "vote env rm post_id vote_state st")
  obtain r2 st3 where v2: "vote env rm post_id NONE (emit (ESleep pacing) st1) = (r2, st3)"
    by (cases "vote env rm post_id NONE (emit (ESleep pacing) st1)")
  show ?thesis
    using v1 v2 assms
    by (cases "truthy r2") (simp_all add: time_sleep_pacing time_sleep_clamped Let_def)
qed

lemmas proj_simps = map_filter_append emit_fields send_progress_fields List.map_filter_simps

lemma vote_calls_vote:
  "vote env rm post_id vote_state st = (r, st') \<Longrightarrow>
   vote_calls (trace st') = vote_calls (trace st) @ [(post_id, vote_state, r)]"
  unfolding vote_calls_def by (subst vote_proj [where f = vote_call]) (auto simp: List.map_filter_simps)

lemma pace_view_vote:
  "vote env rm post_id vote_state st = (r, st') \<Longrightarrow>
   pace_view (trace st') = pace_view (trace st) @ [PVote post_id vote_state]"
  unfolding pace_view_def by (subst vote_proj [where f = pace_of]) (auto simp: List.map_filter_simps)


lemma progress_sends_vote:
  "vote env rm post_id vote_state st = (r, st') \<Longrightarrow>
   progress_sends (trace st') = progress_sends (trace st)"
  unfolding progress_sends_def by (subst vote_proj [where f = progress_send]) (auto simp: List.map_filter_simps)

lemma callback_calls_vote:
  "vote env rm post_id vote_state st = (r, st') \<Longrightarrow>
   callback_calls (trace st') = callback_calls (trace st)"
  unfolding callback_calls_def by (subst vote_proj [where f = callback_call]) (auto simp: List.map_filter_simps)

lemma remove_votes_loop_calls:
  assumes "vote_state \<noteq> NONE"
    and "remove_votes_loop env rm vote_state delay callback post_url_map i ps stats st =
      Inr (stats', st')"
  shows "\<exists>calls.
     vote_calls (trace st') = vote_calls (trace st) @ calls \<and>
     map (\<lambda>(p, s, r). (p, s)) calls = concat (map (\<lambda>p. [(p, vote_state), (p, NONE)]) ps) \<and>
     removed_count stats' =
       removed_count stats + length (filter (\<lambda>(p, s, r). s = NONE \<and> truthy r) calls) \<and>
     failed_count stats' =
       failed_count stats + length (filter (\<lambda>(p, s, r). s = NONE \<and> \<not> truthy r) calls)"
proof -
  let ?P = "\<lambda>(i::nat) ps stats st res. \<exists>calls.
     vote_calls (trace (snd res)) = vote_calls (trace st) @ calls \<and>
     map (\<lambda>(p, s, r). (p, s)) calls = concat (map (\<lambda>p. [(p, vote_state), (p, NONE)]) ps) \<and>
     removed_count (fst res) =
       removed_count stats + length (filter (\<lambda>(p, s, r). s = NONE \<and> truthy r) calls) \<and>
     failed_count (fst res) =
       failed_count stats + length (filter (\<lambda>(p, s, r). s = NONE \<and> \<not> truthy r) calls)"
  have "(sleep_accepted env (max pacing delay) \<longrightarrow>
           (\<exists>res. remove_votes_loop env rm vote_state delay callback post_url_map i ps stats st =
              Inr res)) \<and>
         (\<forall>res. remove_votes_loop env rm vote_state delay callback post_url_map i ps stats st =
              Inr res \<longrightarrow>
            ?P i ps stats st res)"
  proof (rule remove_votes_loop_rule [where P = ?P], goal_cases)
    case (1 i stats st)
    show ?case by simp
  next
    case (2 i post_id rest stats st r1 st1 r2 st3 stats1 st4 res)
    have c1: "vote_calls (trace st1) = vote_calls (trace st) @ [(post_id, vote_state, r1)]"
      using 2(1) by (rule vote_calls_vote)
    have c3: "vote_calls (trace st3) = vote_calls (trace st1) @ [(post_id, NONE, r2)]"
      using vote_calls_vote [OF 2(2)] by (simp add: vote_calls_def proj_simps)
    have c4: "vote_calls (trace st4) = vote_calls (trace st3)"
      using 2(4) by (auto simp: vote_calls_def proj_simps split: option.splits)
    have c5: "vote_calls (trace (if i < total_count stats1
                then emit (ESleep (max pacing delay)) st4 else st4)) =
              vote_calls (trace st) @ [(post_id, vote_state, r1), (post_id, NONE, r2)]"
      using c1 c3 c4 by (simp add: vote_calls_def proj_simps)
    from 2(5) obtain calls where
      k1: "vote_calls (trace (snd res)) =
           (vote_calls (trace st) @ [(post_id, vote_state, r1), (post_id, NONE, r2)]) @ calls" and
      k2: "map (\<lambda>(p, s, r). (p, s)) calls =
           concat (map (\<lambda>p. [(p, vote_state), (p, NONE)]) rest)" and
      k3: "removed_count (fst res) =
           removed_count stats1 + length (filter (\<lambda>(p, s, r). s = NONE \<and> truthy r) calls)" and
      k4: "failed_count (fst res) =
           failed_count stats1 + length (filter (\<lambda>(p, s, r). s = NONE \<and> \<not> truthy r) calls)"
      unfolding c5 by blast
    show ?case
      by (rule exI [of _ "[(post_id, vote_state, r1), (post_id, NONE, r2)] @ calls"])
        (use k1 k2 k3 k4 assms(1) in \<open>cases "truthy r2"; simp add: 2(3)\<close>)
  qed
  then have "?P i ps stats st (stats', st')"
    using assms(2) by blast
  then show ?thesis by simp
qed

lemma sep_by_Cons:
  "sep_by s (b # bs) = (if bs = [] then b else b @ s @ sep_by s bs)"
  by (cases bs) simp_all

lemma remove_votes_loop_pacing:
  assumes "i + length ps = total_count stats + 1"
    and "remove_votes_loop env rm vote_state delay callback post_url_map i ps stats st =
      Inr (stats', st')"
  shows "pace_view (trace st') =
       pace_view (trace st) @ spec_pacing vote_state (max pacing delay) ps"
proof -
  let ?P = "\<lambda>i ps stats st res.
     i + length ps = total_count stats + 1 \<longrightarrow>
     pace_view (trace (snd res)) =
       pace_view (trace st) @ spec_pacing vote_state (max pacing delay) ps"
  have "(sleep_accepted env (max pacing delay) \<longrightarrow>
           (\<exists>res. remove_votes_loop env rm vote_state delay callback post_url_map i ps stats st =
              Inr res)) \<and>
         (\<forall>res. remove_votes_loop env rm vote_state delay callback post_url_map i ps stats st =
              Inr res \<longrightarrow>
            ?P i ps stats st res)"
  proof (rule remove_votes_loop_rule [where P = ?P], goal_cases)
    case (1 i stats st)
    show ?case by (simp add: spec_pacing_def)
  next
    case (2 i post_id rest stats st r1 st1 r2 st3 stats1 st4 res)
    have t: "total_count stats1 = total_count stats"
      by (simp add: 2(3))
    have p3: "pace_view (trace st3) =
        pace_view (trace st) @ [PVote post_id vote_state, PSleep pacing, PVote post_id NONE]"
      using pace_view_vote [OF 2(1)] pace_view_vote [OF 2(2)]
      by (simp add: pace_view_def proj_simps)
    have p4: "pace_view (trace st4) = pace_view (trace st3)"
      using 2(4) by (auto simp: pace_view_def proj_simps split: option.splits)
    show ?case
    proof
      assume inv: "i + length (post_id # rest) = total_count stats + 1"
      then have next_inv: "i + 1 + length rest = total_count stats1 + 1"
        by (simp add: t)
      have last: "(i < total_count stats1) = (rest \<noteq> [])"
        using inv t by (cases rest) auto
      from 2(5) next_inv have
        "pace_view (trace (snd res)) =
           pace_view (trace (if i < total_count stats1
              then emit (ESleep (max pacing delay)) st4 else st4)) @
           spec_pacing vote_state (max pacing delay) rest"
        by blast
      then show "pace_view (trace (snd res)) =
          pace_view (trace st) @ spec_pacing vote_state (max pacing delay) (post_id # rest)"
        using p3 p4 last
        by (auto simp: spec_pacing_def sep_by_Cons pace_view_def proj_simps)
    qed
  qed
  then have "?P i ps stats st (stats', st')"
    using assms(2) by blast
  with assms(1) show ?thesis by simp
qed



section \<open>Discovery\<close>

lemma session_get_fields:
  "session_get env url params st = (reply, st') \<Longrightarrow>
   reply = get_script env (gets st) \<and>
   trace st' = trace st @ [EGet url params (accept st)] \<and> gets st' = gets st + 1 \<and>
   posts st' = posts st \<and> accept st' = accept st"
  by (auto simp: session_get_def emit_def)

lemma stops_test:
  "(\<not> str_truthy (page_cursor html) \<or> page_cursor html = after \<or> page_ids html = {}) =
   stops after html"
  by (simp add: stops_def str_truthy_page_cursor)

text \<open>One iteration of the loop of \<open>_get_voted_posts\<close>, by the reply it receives.\<close>

lemma loop_turn:
  "\<exists>st1. gets st1 = gets st + 1 \<and> posts st1 = posts st \<and> accept st1 = accept st \<and>
     (\<exists>url params. trace st1 = trace st @ [EGet url params (accept st)]) \<and>
     get_voted_posts_loop (Suc fuel) env username vote_type all_ids after st =
       (case get_script env (gets st) of
          GetRaises \<Rightarrow> Some (all_ids, st1)
        | GetResponse status_code html \<Rightarrow>
            if status_code = 404 then Some ({}, st1)
            else if raise_for_status status_code then Some (all_ids, st1)
            else if stops after html then Some (all_ids \<union> page_ids html, st1)
            else get_voted_posts_loop fuel env username vote_type (all_ids \<union> page_ids html)
                   (page_cursor html) (emit (ESleep pacing) st1))"
proof -
  define st1 where "st1 = snd (session_get env
     (if str_truthy after
      then BASE_URL @ ''/svc/shreddit/profiles/profile_'' @ VoteType_value vote_type
             @ ''-more-posts/new/''
      else BASE_URL @ ''/user/'' @ username @ ''/'' @ VoteType_value vote_type @ ''/'')
     (if str_truthy after then Some [(''after'', the after), (''name'', username)] else None) st)"
  have f: "gets st1 = gets st + 1" "posts st1 = posts st" "accept st1 = accept st"
    "\<exists>url params. trace st1 = trace st @ [EGet url params (accept st)]"
    by (simp_all add: st1_def session_get_def emit_def)
  have "get_voted_posts_loop (Suc fuel) env username vote_type all_ids after st =
       (case get_script env (gets st) of
          GetRaises \<Rightarrow> Some (all_ids, st1)
        | GetResponse status_code html \<Rightarrow>
            if status_code = 404 then Some ({}, st1)
            else if raise_for_status status_code then Some (all_ids, st1)
            else if stops after html then Some (all_ids \<union> page_ids html, st1)
            else get_voted_posts_loop fuel env username vote_type (all_ids \<union> page_ids html)
                   (page_cursor html) (emit (ESleep pacing) st1))"
    unfolding st1_def get_voted_posts_loop.simps Let_def session_get_def
      page_ids_def [symmetric] page_cursor_def [symmetric] stops_test
    by (simp add: time_sleep_pacing split: get_reply.splits)
  with f show ?thesis by blast
qed


lemma fetched_Some:
  "(fetched reply = Some html) =
   (\<exists>status_code. reply = GetResponse status_code html \<and> status_code \<noteq> 404 \<and>
      \<not> raise_for_status status_code)"
  by (cases reply) auto

lemma loop_quiet:
  assumes "\<And>url params a. f (EGet url params a) = None" and "\<And>secs. f (ESleep secs) = None"
  shows "get_voted_posts_loop fuel env username vote_type all_ids after st = Some (ids, st') \<Longrightarrow>
     List.map_filter f (trace st') = List.map_filter f (trace st) \<and> posts st' = posts st \<and>
     accept st' = accept st"
proof (induction fuel arbitrary: all_ids after st)
  case 0
  then show ?case by simp
next
  case (Suc fuel)
  from loop_turn [of st fuel env username vote_type all_ids after] obtain st1 url params where
    f1: "posts st1 = posts st" "accept st1 = accept st"
      "trace st1 = trace st @ [EGet url params (accept st)]"
    and turn: "get_voted_posts_loop (Suc fuel) env username vote_type all_ids after st =
       (case get_script env (gets st) of
          GetRaises \<Rightarrow> Some (all_ids, st1)
        | GetResponse status_code html \<Rightarrow>
            if status_code = 404 then Some ({}, st1)
            else if raise_for_status status_code then Some (all_ids, st1)
            else if stops after html then Some (all_ids \<union> page_ids html, st1)
            else get_voted_posts_loop fuel env username vote_type (all_ids \<union> page_ids html)
                   (page_cursor html) (emit (ESleep pacing) st1))"
    by blast
  have q1: "List.map_filter f (trace st1) = List.map_filter f (trace st)"
    by (simp add: f1 map_filter_append List.map_filter_simps assms)
  have q2: "List.map_filter f (trace (emit (ESleep pacing) st1)) = List.map_filter f (trace st)"
    by (simp add: f1 emit_fields map_filter_append List.map_filter_simps assms)
  show ?case
  proof (cases "get_script env (gets st)")
    case GetRaises
    with Suc.prems turn q1 f1 show ?thesis by auto
  next
    case (GetResponse status_code html)
    show ?thesis
    proof (cases "status_code = 404 \<or> raise_for_status status_code \<or> stops after html")
      case True
      with Suc.prems turn GetResponse q1 f1 show ?thesis
        by (auto split: if_splits)
    next
      case False
      with Suc.prems turn GetResponse have
        "get_voted_posts_loop fuel env username vote_type (all_ids \<union> page_ids html)
           (page_cursor html) (emit (ESleep pacing) st1) = Some (ids, st')"
        by simp
      from Suc.IH [OF this] show ?thesis
        using q2 f1 by (simp add: emit_fields)
    qed
  qed
qed

lemma ids_of_pages_add:
  "ids_of_pages env g (Suc k) =
   ids_of_pages env g k \<union>
     (case fetched (get_script env (g + k)) of None \<Rightarrow> {} | Some html \<Rightarrow> page_ids html)"
  by (induction k arbitrary: g) auto

lemma continues_has_ids:
  "continues env g after k \<Longrightarrow> 0 < k \<Longrightarrow> ids_of_pages env g k \<noteq> {}"
  by (cases k) (auto simp: stops_def split: option.splits)

lemma continues_prefix:
  "continues env g after (j + k) \<Longrightarrow> continues env g after j"
  by (induction j arbitrary: g after) (auto split: option.splits)

text \<open>Over \<open>k\<close> pages that continue, the loop uses \<open>k\<close> units of fuel and \<open>k\<close> replies.\<close>

lemma loop_run:
  "continues env (gets st) after k \<Longrightarrow>
   \<exists>st_k. gets st_k = gets st + k \<and>
     get_voted_posts_loop (k + n) env username vote_type all_ids after st =
     get_voted_posts_loop n env username vote_type (all_ids \<union> ids_of_pages env (gets st) k)
       (cursor_after env (gets st) after k) st_k"
proof (induction k arbitrary: st all_ids after)
  case 0
  show ?case by (rule exI [of _ st]) simp
next
  case (Suc k)
  from Suc.prems obtain html where
    page: "fetched (get_script env (gets st)) = Some html" and
    go: "\<not> stops after html" and
    rest: "continues env (Suc (gets st)) (page_cursor html) k"
    by (auto split: option.splits)
  from page obtain status_code where
    reply: "get_script env (gets st) = GetResponse status_code html"
    "status_code \<noteq> 404" "\<not> raise_for_status status_code"
    by (auto simp: fetched_Some)
  from loop_turn [of st "k + n" env username vote_type all_ids after] obtain st1 where
    g1: "gets st1 = gets st + 1"
    and turn: "get_voted_posts_loop (Suc (k + n)) env username vote_type all_ids after st =
        get_voted_posts_loop (k + n) env username vote_type (all_ids \<union> page_ids html)
          (page_cursor html) (emit (ESleep pacing) st1)"
    using reply go by auto
  have "continues env (gets (emit (ESleep pacing) st1)) (page_cursor html) k"
    using rest g1 by (simp add: emit_fields)
  from Suc.IH [OF this, of "all_ids \<union> page_ids html"] obtain st_k where
    gk: "gets st_k = gets (emit (ESleep pacing) st1) + k" and
    run: "get_voted_posts_loop (k + n) env username vote_type (all_ids \<union> page_ids html)
            (page_cursor html) (emit (ESleep pacing) st1) =
          get_voted_posts_loop n env username vote_type
            (all_ids \<union> page_ids html \<union> ids_of_pages env (gets (emit (ESleep pacing) st1)) k)
            (cursor_after env (gets (emit (ESleep pacing) st1)) (page_cursor html) k) st_k"
    by blast
  have "gets st_k = gets st + Suc k"
    using gk g1 by (simp add: emit_fields)
  moreover have "get_voted_posts_loop (Suc k + n) env username vote_type all_ids after st =
      get_voted_posts_loop n env username vote_type (all_ids \<union> ids_of_pages env (gets st) (Suc k))
        (cursor_after env (gets st) after (Suc k)) st_k"
    using turn run g1 page by (simp add: emit_fields Un_assoc)
  ultimately show ?case by blast
qed

lemma loop_out_of_fuel:
  assumes "continues env (gets st) after k" and "fuel \<le> k"
  shows "get_voted_posts_loop fuel env username vote_type all_ids after st = None"
proof -
  define j where "j = k - fuel"
  have k: "k = fuel + j"
    using assms(2) by (simp add: j_def)
  with assms(1) have "continues env (gets st) after fuel"
    using continues_prefix by blast
  from loop_run [OF this, of 0 username vote_type all_ids] obtain st_k where
    "get_voted_posts_loop (fuel + 0) env username vote_type all_ids after st =
     get_voted_posts_loop 0 env username vote_type (all_ids \<union> ids_of_pages env (gets st) fuel)
       (cursor_after env (gets st) after fuel) st_k"
    by blast
  then show ?thesis
    by simp
qed

text \<open>The loop after \<open>k\<close> pages that continue, by the reply that ends it.\<close>

lemma loop_ends:
  assumes "continues env (gets st) after k" and "k < fuel"
  shows "\<exists>st'. gets st' = gets st + Suc k \<and>
     get_voted_posts_loop fuel env username vote_type all_ids after st =
       (case get_script env (gets st + k) of
          GetRaises \<Rightarrow> Some (all_ids \<union> ids_of_pages env (gets st) k, st')
        | GetResponse status_code html \<Rightarrow>
            if status_code = 404 then Some ({}, st')
            else if raise_for_status status_code
            then Some (all_ids \<union> ids_of_pages env (gets st) k, st')
            else if stops (cursor_after env (gets st) after k) html
            then Some (all_ids \<union> ids_of_pages env (gets st) k \<union> page_ids html, st')
            else get_voted_posts_loop (fuel - Suc k) env username vote_type
                   (all_ids \<union> ids_of_pages env (gets st) k \<union> page_ids html)
                   (page_cursor html) (emit (ESleep pacing) st'))"
proof -
  define n where "n = fuel - Suc k"
  have fuel: "fuel = k + Suc n"
    using assms(2) by (simp add: n_def)
  from loop_run [OF assms(1), of "Suc n" username vote_type all_ids] obtain st_k where
    gk: "gets st_k = gets st + k" and
    run: "get_voted_posts_loop (k + Suc n) env username vote_type all_ids after st =
      get_voted_posts_loop (Suc n) env username vote_type (all_ids \<union> ids_of_pages env (gets st) k)
        (cursor_after env (gets st) after k) st_k"
    by blast
  from loop_turn [of st_k n env username vote_type "all_ids \<union> ids_of_pages env (gets st) k"
      "cursor_after env (gets st) after k"]
  obtain st1 where g1: "gets st1 = gets st_k + 1"
    and turn: "get_voted_posts_loop (Suc n) env username vote_type
        (all_ids \<union> ids_of_pages env (gets st) k) (cursor_after env (gets st) after k) st_k =
       (case get_script env (gets st_k) of
          GetRaises \<Rightarrow> Some (all_ids \<union> ids_of_pages env (gets st) k, st1)
        | GetResponse status_code html \<Rightarrow>
            if status_code = 404 then Some ({}, st1)
            else if raise_for_status status_code
            then Some (all_ids \<union> ids_of_pages env (gets st) k, st1)
            else if stops (cursor_after env (gets st) after k) html
            then Some (all_ids \<union> ids_of_pages env (gets st) k \<union> page_ids html, st1)
            else get_voted_posts_loop n env username vote_type
                   (all_ids \<union> ids_of_pages env (gets st) k \<union> page_ids html)
                   (page_cursor html) (emit (ESleep pacing) st1))"
    by blast
  have g': "gets st1 = gets st + Suc k"
    using g1 gk by simp
  have eq: "get_voted_posts_loop fuel env username vote_type all_ids after st =
       (case get_script env (gets st + k) of
          GetRaises \<Rightarrow> Some (all_ids \<union> ids_of_pages env (gets st) k, st1)
        | GetResponse status_code html \<Rightarrow>
            if status_code = 404 then Some ({}, st1)
            else if raise_for_status status_code
            then Some (all_ids \<union> ids_of_pages env (gets st) k, st1)
            else if stops (cursor_after env (gets st) after k) html
            then Some (all_ids \<union> ids_of_pages env (gets st) k \<union> page_ids html, st1)
            else get_voted_posts_loop n env username vote_type
                   (all_ids \<union> ids_of_pages env (gets st) k \<union> page_ids html)
                   (page_cursor html) (emit (ESleep pacing) st1))"
    unfolding fuel run turn gk ..
  show ?thesis
    by (rule exI [of _ st1]) (use eq g' in \<open>simp only: n_def simp_thms\<close>)
qed

lemma get_voted_posts_loop_of:
  "get_voted_posts fuel env username vote_type st =
     (case get_voted_posts_loop fuel env username vote_type {} None
             (st\<lparr>accept := Some html_accept\<rparr>) of
        None \<Rightarrow> None
      | Some (ids, st') \<Rightarrow>
          Some (ids, if str_truthy (accept st) then st'\<lparr>accept := accept st\<rparr> else st'))"
  by (simp add: get_voted_posts_def Let_def)

lemma get_voted_posts_quiet:
  assumes "\<And>url params a. f (EGet url params a) = None" and "\<And>secs. f (ESleep secs) = None"
    and "get_voted_posts fuel env username vote_type st = Some (ids, st1)"
  shows "List.map_filter f (trace st1) = List.map_filter f (trace st) \<and> posts st1 = posts st"
proof -
  from assms(3) obtain st' where
    loop: "get_voted_posts_loop fuel env username vote_type {} None
             (st\<lparr>accept := Some html_accept\<rparr>) = Some (ids, st')"
    and st1: "st1 = (if str_truthy (accept st) then st'\<lparr>accept := accept st\<rparr> else st')"
    by (auto simp: get_voted_posts_loop_of split: option.splits)
  from loop_quiet [OF assms(1,2) loop] st1 show ?thesis
    by auto
qed

section \<open>The loop of the standalone script\<close>

lemma simple_remove_votes_loop_rule:
  assumes base: "\<And>i r f st. P i [] r f st ((r, f), st)"
    and step: "\<And>i post_id rest r f st r1 st1 r2 st3 res.
      vote env rm post_id vote_state st = (r1, st1) \<Longrightarrow>
      vote env rm post_id NONE (emit (ESleep pacing) st1) = (r2, st3) \<Longrightarrow>
      P (i + 1) rest (if truthy r2 then r + 1 else r) (if truthy r2 then f else f + 1)
        (if i < n then emit (ESleep delay) st3 else st3) res \<Longrightarrow>
      P i (post_id # rest) r f st res"
  shows "(0 \<le> delay \<and> sleep_accepted env delay \<longrightarrow>
           (\<exists>res. simple_remove_votes_loop env rm vote_state delay n i ps r f st = Inr res)) \<and>
         (\<forall>res. simple_remove_votes_loop env rm vote_state delay n i ps r f st = Inr res \<longrightarrow>
            P i ps r f st res)"
proof (induction ps arbitrary: i r f st)
  case Nil
  show ?case by (simp add: base)
next
  case (Cons post_id rest)
  obtain r1 st1 where v1: "vote env rm post_id vote_state st = (r1, st1)"
    by (cases "vote env rm post_id vote_state st")
  obtain r2 st3 where v2: "vote env rm post_id NONE (emit (ESleep pacing) st1) = (r2, st3)"
    by (cases "vote env rm post_id NONE (emit (ESleep pacing) st1)")
  define r' where "r' = (if truthy r2 then r + 1 else r)"
  define f' where "f' = (if truthy r2 then f else f + 1)"
  define st4 where "st4 = (if i < n then emit (ESleep delay) st3 else st3)"
  have turn: "simple_remove_votes_loop env rm vote_state delay n i (post_id # rest) r f st =
      (if i < n \<and>
          (delay < 0 \<or> sleep_limit \<le> delay \<or>
           pacing < delay \<and> sleep_refused env (length (trace st3)) delay)
       then Inl (if delay < 0 then ValueError
                 else if sleep_limit \<le> delay then OverflowError else OSError)
       else simple_remove_votes_loop env rm vote_state delay n (i + 1) rest r' f' st4)"
    using v1 v2 pacing_pos pacing_below_limit
    by (auto simp: r'_def f'_def st4_def time_sleep_def Let_def)
  show ?case
  proof (cases "i < n \<and>
          (delay < 0 \<or> sleep_limit \<le> delay \<or>
           pacing < delay \<and> sleep_refused env (length (trace st3)) delay)")
    case True
    with turn show ?thesis by auto
  next
    case False
    have "P i (post_id # rest) r f st res"
      if "simple_remove_votes_loop env rm vote_state delay n (i + 1) rest r' f' st4 = Inr res" for res
      using step [OF v1 v2] Cons.IH [of "i + 1" r' f' st4] that
      unfolding r'_def f'_def st4_def by blast
    with turn False Cons.IH [of "i + 1" r' f' st4] show ?thesis
      by auto
  qed
qed

lemma simple_remove_votes_loop_counts:
  "(0 \<le> delay \<and> sleep_accepted env delay \<longrightarrow>
      (\<exists>res. simple_remove_votes_loop env rm vote_state delay n i ps r f st = Inr res)) \<and>
   (\<forall>r' f' st'. simple_remove_votes_loop env rm vote_state delay n i ps r f st = Inr ((r', f'), st')
      \<longrightarrow> r' + f' = r + f + length ps)"
proof -
  let ?P = "\<lambda>(i::nat) ps r f (st::state) res.
     fst (fst res) + snd (fst res) = r + f + length ps"
  have "(0 \<le> delay \<and> sleep_accepted env delay \<longrightarrow>
           (\<exists>res. simple_remove_votes_loop env rm vote_state delay n i ps r f st = Inr res)) \<and>
         (\<forall>res. simple_remove_votes_loop env rm vote_state delay n i ps r f st = Inr res \<longrightarrow>
            ?P i ps r f st res)"
    by (rule simple_remove_votes_loop_rule [where P = ?P]) auto
  then show ?thesis by auto
qed

lemma simple_remove_votes_loop_calls:
  assumes "vote_state \<noteq> NONE"
    and "simple_remove_votes_loop env rm vote_state delay n i ps r f st = Inr ((r', f'), st')"
  shows "\<exists>calls.
     vote_calls (trace st') = vote_calls (trace st) @ calls \<and>
     map (\<lambda>(p, s, r). (p, s)) calls = concat (map (\<lambda>p. [(p, vote_state), (p, NONE)]) ps) \<and>
     r' = r + length (filter (\<lambda>(p, s, r). s = NONE \<and> truthy r) calls) \<and>
     f' = f + length (filter (\<lambda>(p, s, r). s = NONE \<and> \<not> truthy r) calls)"
proof -
  let ?P = "\<lambda>(i::nat) ps r f st res. \<exists>calls.
     vote_calls (trace (snd res)) = vote_calls (trace st) @ calls \<and>
     map (\<lambda>(p, s, r). (p, s)) calls = concat (map (\<lambda>p. [(p, vote_state), (p, NONE)]) ps) \<and>
     fst (fst res) = r + length (filter (\<lambda>(p, s, r). s = NONE \<and> truthy r) calls) \<and>
     snd (fst res) = f + length (filter (\<lambda>(p, s, r). s = NONE \<and> \<not> truthy r) calls)"
  have "(0 \<le> delay \<and> sleep_accepted env delay \<longrightarrow>
           (\<exists>res. simple_remove_votes_loop env rm vote_state delay n i ps r f st = Inr res)) \<and>
         (\<forall>res. simple_remove_votes_loop env rm vote_state delay n i ps r f st = Inr res \<longrightarrow>
            ?P i ps r f st res)"
  proof (rule simple_remove_votes_loop_rule [where P = ?P], goal_cases)
    case (1 i r f st)
    show ?case by simp
  next
    case (2 i post_id rest r f st r1 st1 r2 st3 res)
    have c1: "vote_calls (trace st1) = vote_calls (trace st) @ [(post_id, vote_state, r1)]"
      using 2(1) by (rule vote_calls_vote)
    have c3: "vote_calls (trace st3) = vote_calls (trace st1) @ [(post_id, NONE, r2)]"
      using vote_calls_vote [OF 2(2)] by (simp add: vote_calls_def proj_simps)
    have c5: "vote_calls (trace (if i < n then emit (ESleep delay) st3 else st3)) =
              vote_calls (trace st) @ [(post_id, vote_state, r1), (post_id, NONE, r2)]"
      using c1 c3 by (simp add: vote_calls_def proj_simps)
    from 2(3) obtain calls where
      k1: "vote_calls (trace (snd res)) =
           (vote_calls (trace st) @ [(post_id, vote_state, r1), (post_id, NONE, r2)]) @ calls" and
      k2: "map (\<lambda>(p, s, r). (p, s)) calls =
           concat (map (\<lambda>p. [(p, vote_state), (p, NONE)]) rest)" and
      k3: "fst (fst res) = (if truthy r2 then r + 1 else r) +
           length (filter (\<lambda>(p, s, r). s = NONE \<and> truthy r) calls)" and
      k4: "snd (fst res) = (if truthy r2 then f else f + 1) +
           length (filter (\<lambda>(p, s, r). s = NONE \<and> \<not> truthy r) calls)"
      unfolding c5 by blast
    show ?case
      by (rule exI [of _ "[(post_id, vote_state, r1), (post_id, NONE, r2)] @ calls"])
        (use k1 k2 k3 k4 assms(1) in \<open>cases "truthy r2"; simp\<close>)
  qed
  with assms(2) show ?thesis by auto
qed

lemma simple_remove_votes_loop_pacing:
  assumes "i + length ps = n + 1"
    and "simple_remove_votes_loop env rm vote_state delay n i ps r f st = Inr (res, st')"
  shows "pace_view (trace st') = pace_view (trace st) @ spec_pacing vote_state delay ps"
proof -
  let ?P = "\<lambda>i ps (r::nat) (f::nat) st res.
     i + length ps = n + 1 \<longrightarrow>
     pace_view (trace (snd res)) = pace_view (trace st) @ spec_pacing vote_state delay ps"
  have "(0 \<le> delay \<and> sleep_accepted env delay \<longrightarrow>
           (\<exists>res. simple_remove_votes_loop env rm vote_state delay n i ps r f st = Inr res)) \<and>
         (\<forall>res. simple_remove_votes_loop env rm vote_state delay n i ps r f st = Inr res \<longrightarrow>
            ?P i ps r f st res)"
  proof (rule simple_remove_votes_loop_rule [where P = ?P], goal_cases)
    case (1 i r f st)
    show ?case by (simp add: spec_pacing_def)
  next
    case (2 i post_id rest r f st r1 st1 r2 st3 res)
    have p3: "pace_view (trace st3) =
        pace_view (trace st) @ [PVote post_id vote_state, PSleep pacing, PVote post_id NONE]"
      using pace_view_vote [OF 2(1)] pace_view_vote [OF 2(2)]
      by (simp add: pace_view_def proj_simps)
    show ?case
    proof
      assume inv: "i + length (post_id # rest) = n + 1"
      then have next_inv: "i + 1 + length rest = n + 1"
        by simp
      have last: "(i < n) = (rest \<noteq> [])"
        using inv by (cases rest) auto
      from 2(3) next_inv have
        "pace_view (trace (snd res)) =
           pace_view (trace (if i < n then emit (ESleep delay) st3 else st3)) @
           spec_pacing vote_state delay rest"
        by blast
      then show "pace_view (trace (snd res)) =
          pace_view (trace st) @ spec_pacing vote_state delay (post_id # rest)"
        using p3 last
        by (auto simp: spec_pacing_def sep_by_Cons pace_view_def proj_simps)
    qed
  qed
  with assms show ?thesis by auto
qed

section \<open>A pass after discovery\<close>

lemma iter_ok_length: "iter_ok env S \<Longrightarrow> length (set_iter env S) = card S"
  using distinct_card by (fastforce simp: iter_ok_def)

lemma iter_ok_empty: "iter_ok env {} \<Longrightarrow> set_iter env {} = []"
  by (simp add: iter_ok_def)

lemma resolve_permalinks_trace:
  "resolve_permalinks env username vote_type post_ids st = (urls, st2) \<Longrightarrow>
   posts st2 = posts st \<and>
   (\<exists>pre. trace st2 = trace st @ pre \<and> (\<forall>e \<in> set pre. \<exists>url params a. e = EGet url params a))"
  by (auto simp: resolve_permalinks_def session_get_def emit_def Let_def
      split: if_splits get_reply.splits)

lemma gets_only:
  assumes "\<forall>e \<in> set pre. \<exists>url params a. e = EGet url params a"
  shows "vote_calls pre = []" "pace_view pre = []" "network_posts pre = []"
    "item_snapshots pre = []" "progress_sends pre = []" "callback_calls pre = []"
  using assms
  by (induction pre)
    (auto simp: vote_calls_def pace_view_def network_posts_def item_snapshots_def
      progress_sends_def callback_calls_def List.map_filter_simps)

lemma remove_votes_found_empty:
  "remove_votes_found env rm username vote_type delay callback {} st =
     Inr (\<lparr>total_count = 0, removed_count = 0, failed_count = 0\<rparr>,
          send_progress callback (MsgNoPosts vote_type username) ''warning''
            (Snapshot \<lparr>total_count = 0, removed_count = 0, failed_count = 0\<rparr>) st)"
  by (simp add: remove_votes_found_def Let_def)

text \<open>A pass over a discovery that is not empty: what precedes the loop, and what follows.\<close>

lemma remove_votes_found_start:
  assumes "post_ids \<noteq> {}"
  shows "\<exists>urls st2 pre.
     trace st2 = trace st @ pre \<and> posts st2 = posts st \<and>
     vote_calls pre = [] \<and> pace_view pre = [] \<and> network_posts pre = [] \<and>
     item_snapshots pre = [] \<and>
     remove_votes_found env rm username vote_type delay callback post_ids st =
       (case remove_votes_loop env rm (if vote_type = UPVOTED then UP else DOWN) delay callback
               urls 1 (set_iter env post_ids)
               \<lparr>total_count = card post_ids, removed_count = 0, failed_count = 0\<rparr> st2 of
          Inl e \<Rightarrow> Inl e
        | Inr (stats', st3) \<Rightarrow>
            Inr (stats', send_progress callback (MsgFinished vote_type) ''success''
                           (Snapshot stats') st3))"
proof -
  define stats where "stats = \<lparr>total_count = card post_ids, removed_count = 0, failed_count = 0\<rparr>"
  define st1 where "st1 = send_progress callback (MsgProcessing (card post_ids) vote_type) ''info''
      (Snapshot stats) st"
  obtain urls st2 where r: "resolve_permalinks env username vote_type post_ids st1 = (urls, st2)"
    by (cases "resolve_permalinks env username vote_type post_ids st1")
  from resolve_permalinks_trace [OF r] obtain pre where
    p2: "posts st2 = posts st1" and t2: "trace st2 = trace st1 @ pre" and
    pre: "\<forall>e \<in> set pre. \<exists>url params a. e = EGet url params a"
    by blast
  define pre1 where "pre1 = ESendProgress (MsgProcessing (card post_ids) vote_type) ''info''
      (Snapshot stats) #
      (case callback of None \<Rightarrow> []
       | Some f \<Rightarrow> [ECallback (MsgProcessing (card post_ids) vote_type) ''info'' (Snapshot stats)])"
  have t1: "trace st1 = trace st @ pre1" "posts st1 = posts st"
    by (simp_all add: st1_def pre1_def send_progress_fields)
  have q1: "vote_calls pre1 = []" "pace_view pre1 = []" "network_posts pre1 = []"
    "item_snapshots pre1 = []"
    by (auto simp: pre1_def vote_calls_def pace_view_def network_posts_def item_snapshots_def
        List.map_filter_simps split: option.splits)
  have q: "vote_calls (pre1 @ pre) = []" "pace_view (pre1 @ pre) = []"
    "network_posts (pre1 @ pre) = []" "item_snapshots (pre1 @ pre) = []"
    using q1 gets_only [OF pre]
    by (simp_all add: vote_calls_def pace_view_def network_posts_def item_snapshots_def
        map_filter_append)
  have "remove_votes_found env rm username vote_type delay callback post_ids st =
       (case remove_votes_loop env rm (if vote_type = UPVOTED then UP else DOWN) delay callback
               urls 1 (set_iter env post_ids) stats st2 of
          Inl e \<Rightarrow> Inl e
        | Inr (stats', st3) \<Rightarrow>
            Inr (stats', send_progress callback (MsgFinished vote_type) ''success''
                           (Snapshot stats') st3))"
    using assms r
    by (simp add: remove_votes_found_def Let_def stats_def [symmetric] st1_def [symmetric])
  moreover have "trace st2 = trace st @ (pre1 @ pre)" "posts st2 = posts st"
    using t1 t2 p2 by simp_all
  ultimately show ?thesis
    using q unfolding stats_def by blast
qed

lemma remove_votes_found_loop:
  assumes "post_ids \<noteq> {}"
    and "remove_votes_found env rm username vote_type delay callback post_ids st =
      Inr (stats, st')"
  shows "\<exists>urls st2 pre st3.
     trace st2 = trace st @ pre \<and> posts st2 = posts st \<and>
     vote_calls pre = [] \<and> pace_view pre = [] \<and> network_posts pre = [] \<and>
     item_snapshots pre = [] \<and>
     remove_votes_loop env rm (if vote_type = UPVOTED then UP else DOWN) delay callback
       urls 1 (set_iter env post_ids)
       \<lparr>total_count = card post_ids, removed_count = 0, failed_count = 0\<rparr> st2 =
       Inr (stats, st3) \<and>
     st' = send_progress callback (MsgFinished vote_type) ''success'' (Snapshot stats) st3"
proof -
  let ?vs = "if vote_type = UPVOTED then UP else DOWN"
  let ?s0 = "\<lparr>total_count = card post_ids, removed_count = 0, failed_count = 0\<rparr>"
  from remove_votes_found_start [OF assms(1), of st env rm username vote_type delay callback]
  obtain urls st2 pre where
    pre: "trace st2 = trace st @ pre" "posts st2 = posts st" "vote_calls pre = []"
      "pace_view pre = []" "network_posts pre = []" "item_snapshots pre = []" and
    found: "remove_votes_found env rm username vote_type delay callback post_ids st =
       (case remove_votes_loop env rm ?vs delay callback urls 1 (set_iter env post_ids) ?s0 st2 of
          Inl e \<Rightarrow> Inl e
        | Inr (stats', st3) \<Rightarrow>
            Inr (stats', send_progress callback (MsgFinished vote_type) ''success''
                           (Snapshot stats') st3))"
    by blast
  from found assms(2) obtain st3 where
    "remove_votes_loop env rm ?vs delay callback urls 1 (set_iter env post_ids) ?s0 st2 =
       Inr (stats, st3)"
    "st' = send_progress callback (MsgFinished vote_type) ''success'' (Snapshot stats) st3"
    by (auto split: sum.splits prod.splits)
  with pre show ?thesis by blast
qed

lemma remove_votes_found_returns:
  assumes "sleep_accepted env (max pacing delay)"
  shows "\<exists>res. remove_votes_found env rm username vote_type delay callback post_ids st = Inr res"
proof (cases "post_ids = {}")
  case True
  then show ?thesis by (simp add: remove_votes_found_empty)
next
  case False
  let ?vs = "if vote_type = UPVOTED then UP else DOWN"
  let ?s0 = "\<lparr>total_count = card post_ids, removed_count = 0, failed_count = 0\<rparr>"
  from remove_votes_found_start [OF False, of st env rm username vote_type delay callback]
  obtain urls st2 where
    found: "remove_votes_found env rm username vote_type delay callback post_ids st =
       (case remove_votes_loop env rm ?vs delay callback urls 1 (set_iter env post_ids) ?s0 st2 of
          Inl e \<Rightarrow> Inl e
        | Inr (stats', st3) \<Rightarrow>
            Inr (stats', send_progress callback (MsgFinished vote_type) ''success''
                           (Snapshot stats') st3))"
    by blast
  from remove_votes_loop_counts [of delay env rm ?vs callback urls 1 "set_iter env post_ids"
      ?s0 st2] assms
  obtain res where
    "remove_votes_loop env rm ?vs delay callback urls 1 (set_iter env post_ids) ?s0 st2 = Inr res"
    by blast
  with found show ?thesis by (cases res) simp
qed

lemma remove_votes_found_counts:
  assumes "iter_ok env post_ids"
    and "remove_votes_found env rm username vote_type delay callback post_ids st =
      Inr (stats, st')"
  shows "total_count stats = card post_ids \<and>
     removed_count stats + failed_count stats = card post_ids"
proof (cases "post_ids = {}")
  case True
  with assms(2) show ?thesis by (auto simp: remove_votes_found_empty)
next
  case False
  let ?vs = "if vote_type = UPVOTED then UP else DOWN"
  let ?s0 = "\<lparr>total_count = card post_ids, removed_count = 0, failed_count = 0\<rparr>"
  from remove_votes_found_loop [OF False assms(2)] obtain urls st2 st3 where
    loop: "remove_votes_loop env rm ?vs delay callback urls 1 (set_iter env post_ids) ?s0 st2 =
       Inr (stats, st3)"
    by blast
  from remove_votes_loop_counts [of delay env rm ?vs callback urls 1 "set_iter env post_ids"
      ?s0 st2, THEN conjunct2, rule_format, OF loop]
  have "total_count stats = card post_ids"
    "removed_count stats + failed_count stats = length (set_iter env post_ids)"
    by simp_all
  with iter_ok_length [OF assms(1)] show ?thesis
    by simp
qed

lemma proj_append:
  "vote_calls (xs @ ys) = vote_calls xs @ vote_calls ys"
  "pace_view (xs @ ys) = pace_view xs @ pace_view ys"
  "network_posts (xs @ ys) = network_posts xs @ network_posts ys"
  "item_snapshots (xs @ ys) = item_snapshots xs @ item_snapshots ys"
  "progress_sends (xs @ ys) = progress_sends xs @ progress_sends ys"
  "callback_calls (xs @ ys) = callback_calls xs @ callback_calls ys"
  by (simp_all add: vote_calls_def pace_view_def network_posts_def item_snapshots_def
      progress_sends_def callback_calls_def map_filter_append)

lemma send_progress_proj:
  "vote_calls (trace (send_progress callback msg status data st)) = vote_calls (trace st)"
  "pace_view (trace (send_progress callback msg status data st)) = pace_view (trace st)"
  "network_posts (trace (send_progress callback msg status data st)) = network_posts (trace st)"
  "item_snapshots (trace (send_progress callback msg status (Snapshot s) st)) =
     item_snapshots (trace st)"
  by (auto simp: vote_calls_def pace_view_def network_posts_def item_snapshots_def
      proj_simps split: option.splits)

lemma remove_votes_found_calls:
  assumes "iter_ok env post_ids"
    and "remove_votes_found env rm username vote_type delay callback post_ids st =
      Inr (stats, st')"
  shows "\<exists>calls.
     vote_calls (trace st') = vote_calls (trace st) @ calls \<and>
     map (\<lambda>(p, s, r). (p, s)) calls =
       concat (map (\<lambda>p. [(p, if vote_type = UPVOTED then UP else DOWN), (p, NONE)])
         (set_iter env post_ids)) \<and>
     removed_count stats = length (filter (\<lambda>(p, s, r). s = NONE \<and> truthy r) calls) \<and>
     failed_count stats = length (filter (\<lambda>(p, s, r). s = NONE \<and> \<not> truthy r) calls)"
proof (cases "post_ids = {}")
  case True
  with iter_ok_empty assms show ?thesis
    by (auto simp: remove_votes_found_empty send_progress_proj)
next
  case False
  let ?vs = "if vote_type = UPVOTED then UP else DOWN"
  let ?s0 = "\<lparr>total_count = card post_ids, removed_count = 0, failed_count = 0\<rparr>"
  from remove_votes_found_loop [OF False assms(2)] obtain urls st2 pre st3 where
    t2: "trace st2 = trace st @ pre" "vote_calls pre = []" and
    loop: "remove_votes_loop env rm ?vs delay callback urls 1 (set_iter env post_ids) ?s0 st2 =
       Inr (stats, st3)" and
    st': "st' = send_progress callback (MsgFinished vote_type) ''success'' (Snapshot stats) st3"
    by blast
  have "?vs \<noteq> NONE" by simp
  from remove_votes_loop_calls [OF this loop]
  obtain calls where
    c: "vote_calls (trace st3) = vote_calls (trace st2) @ calls"
      "map (\<lambda>(p, s, r). (p, s)) calls =
         concat (map (\<lambda>p. [(p, ?vs), (p, NONE)]) (set_iter env post_ids))"
      "removed_count stats =
         removed_count ?s0 + length (filter (\<lambda>(p, s, r). s = NONE \<and> truthy r) calls)"
      "failed_count stats =
         failed_count ?s0 + length (filter (\<lambda>(p, s, r). s = NONE \<and> \<not> truthy r) calls)"
    by blast
  show ?thesis
    by (rule exI [of _ calls]) (use c t2 in \<open>simp add: st' send_progress_proj proj_append\<close>)
qed

lemma remove_votes_found_pacing:
  assumes "iter_ok env post_ids"
    and "remove_votes_found env rm username vote_type delay callback post_ids st =
      Inr (stats, st')"
  shows "pace_view (trace st') =
       pace_view (trace st) @
       spec_pacing (if vote_type = UPVOTED then UP else DOWN) (max pacing delay)
         (set_iter env post_ids)"
proof (cases "post_ids = {}")
  case True
  with iter_ok_empty assms show ?thesis
    by (auto simp: remove_votes_found_empty send_progress_proj spec_pacing_def)
next
  case False
  let ?vs = "if vote_type = UPVOTED then UP else DOWN"
  let ?s0 = "\<lparr>total_count = card post_ids, removed_count = 0, failed_count = 0\<rparr>"
  from remove_votes_found_loop [OF False assms(2)] obtain urls st2 pre st3 where
    t2: "trace st2 = trace st @ pre" "pace_view pre = []" and
    loop: "remove_votes_loop env rm ?vs delay callback urls 1 (set_iter env post_ids) ?s0 st2 =
       Inr (stats, st3)" and
    st': "st' = send_progress callback (MsgFinished vote_type) ''success'' (Snapshot stats) st3"
    by blast
  have "1 + length (set_iter env post_ids) = total_count ?s0 + 1"
    using iter_ok_length [OF assms(1)] by simp
  from remove_votes_loop_pacing [OF this loop]
  have p: "pace_view (trace st3) =
        pace_view (trace st2) @ spec_pacing ?vs (max pacing delay) (set_iter env post_ids)" .
  show ?thesis
    using p t2 by (simp add: st' send_progress_proj proj_append)
qed



text \<open>
  With two identifiers or more, a delay of \<open>sleep_limit\<close> or more makes the pass raise
  after its first item.
\<close>

lemma remove_votes_found_overflow:
  assumes "iter_ok env post_ids" and "2 \<le> card post_ids" and "sleep_limit \<le> delay"
  shows "remove_votes_found env rm username vote_type delay callback post_ids st =
     Inl OverflowError"
proof -
  let ?vs = "if vote_type = UPVOTED then UP else DOWN"
  let ?s0 = "\<lparr>total_count = card post_ids, removed_count = 0, failed_count = 0\<rparr>"
  from assms(2) have ne: "post_ids \<noteq> {}"
    by auto
  from remove_votes_found_start [OF ne, of st env rm username vote_type delay callback]
  obtain urls st2 where
    found: "remove_votes_found env rm username vote_type delay callback post_ids st =
       (case remove_votes_loop env rm ?vs delay callback urls 1 (set_iter env post_ids) ?s0 st2 of
          Inl e \<Rightarrow> Inl e
        | Inr (stats', st3) \<Rightarrow>
            Inr (stats', send_progress callback (MsgFinished vote_type) ''success''
                           (Snapshot stats') st3))"
    by blast
  from assms(2) iter_ok_length [OF assms(1)] obtain p rest where
    it: "set_iter env post_ids = p # rest"
    by (cases "set_iter env post_ids") auto
  have "1 < total_count ?s0"
    using assms(2) by simp
  from remove_votes_loop_overflow [OF this assms(3)] found it show ?thesis
    by simp
qed

section \<open>A pass of the standalone script after discovery\<close>

lemma simple_remove_votes_found_props:
  assumes "iter_ok env post_ids"
  shows "(0 \<le> delay \<and> sleep_accepted env delay \<longrightarrow>
            (\<exists>res. simple_remove_votes_found env rm vote_type delay post_ids st = Inr res)) \<and>
         (\<forall>stats st'.
            simple_remove_votes_found env rm vote_type delay post_ids st = Inr (stats, st') \<longrightarrow>
            total_count stats = card post_ids \<and>
            removed_count stats + failed_count stats = card post_ids \<and>
            pace_view (trace st') =
              pace_view (trace st) @
              spec_pacing (if vote_type = UPVOTED then UP else DOWN) delay (set_iter env post_ids) \<and>
            (\<exists>calls.
               vote_calls (trace st') = vote_calls (trace st) @ calls \<and>
               map (\<lambda>(p, s, r). (p, s)) calls =
                 concat (map (\<lambda>p. [(p, if vote_type = UPVOTED then UP else DOWN), (p, NONE)])
                   (set_iter env post_ids)) \<and>
               removed_count stats = length (filter (\<lambda>(p, s, r). s = NONE \<and> truthy r) calls) \<and>
               failed_count stats =
                 length (filter (\<lambda>(p, s, r). s = NONE \<and> \<not> truthy r) calls)))"
proof (cases "post_ids = {}")
  case True
  with iter_ok_empty assms show ?thesis
    by (simp add: simple_remove_votes_found_def spec_pacing_def)
next
  case False
  let ?vs = "if vote_type = UPVOTED then UP else DOWN"
  let ?loop = "simple_remove_votes_loop env rm ?vs delay (card post_ids) 1
      (set_iter env post_ids) 0 0 st"
  have found: "simple_remove_votes_found env rm vote_type delay post_ids st =
      (case ?loop of
         Inl e \<Rightarrow> Inl e
       | Inr ((removed_n, failed_n), st') \<Rightarrow>
           Inr (\<lparr>total_count = card post_ids, removed_count = removed_n,
                 failed_count = failed_n\<rparr>, st'))"
    using False by (simp add: simple_remove_votes_found_def Let_def)
  note counts = simple_remove_votes_loop_counts [of delay env rm ?vs "card post_ids" 1
      "set_iter env post_ids" 0 0 st]
  have returns: "0 \<le> delay \<and> sleep_accepted env delay \<longrightarrow>
      (\<exists>res. simple_remove_votes_found env rm vote_type delay post_ids st = Inr res)"
    using counts found by (auto split: prod.splits)
  have inv: "1 + length (set_iter env post_ids) = card post_ids + 1"
    using iter_ok_length [OF assms] by simp
  have vs: "?vs \<noteq> NONE" by simp
  have props: "total_count stats = card post_ids \<and>
      removed_count stats + failed_count stats = card post_ids \<and>
      pace_view (trace st') =
        pace_view (trace st) @ spec_pacing ?vs delay (set_iter env post_ids) \<and>
      (\<exists>calls.
         vote_calls (trace st') = vote_calls (trace st) @ calls \<and>
         map (\<lambda>(p, s, r). (p, s)) calls =
           concat (map (\<lambda>p. [(p, ?vs), (p, NONE)]) (set_iter env post_ids)) \<and>
         removed_count stats = length (filter (\<lambda>(p, s, r). s = NONE \<and> truthy r) calls) \<and>
         failed_count stats = length (filter (\<lambda>(p, s, r). s = NONE \<and> \<not> truthy r) calls))"
    if "simple_remove_votes_found env rm vote_type delay post_ids st = Inr (stats, st')"
    for stats st'
  proof -
    from that found obtain r' f' where
      loop: "?loop = Inr ((r', f'), st')" and
      stats: "stats = \<lparr>total_count = card post_ids, removed_count = r', failed_count = f'\<rparr>"
      by (auto split: sum.splits prod.splits)
    from counts loop have "r' + f' = length (set_iter env post_ids)"
      by auto
    moreover note simple_remove_votes_loop_pacing [OF inv loop]
    moreover note simple_remove_votes_loop_calls [OF vs loop]
    ultimately show ?thesis
      using stats iter_ok_length [OF assms] by simp
  qed
  from returns props show ?thesis by blast
qed

section \<open>How discovery ends\<close>

lemma restore_fields:
  "gets (if c then st'\<lparr>accept := a\<rparr> else st') = gets st'"
  "posts (if c then st'\<lparr>accept := a\<rparr> else st') = posts st'"
  "trace (if c then st'\<lparr>accept := a\<rparr> else st') = trace st'"
  by simp_all

lemma get_voted_posts_out_of_fuel:
  assumes "continues env (gets st) None k" and "fuel \<le> k"
  shows "get_voted_posts fuel env username vote_type st = None"
proof -
  have "continues env (gets (st\<lparr>accept := Some html_accept\<rparr>)) None k"
    using assms(1) by simp
  from loop_out_of_fuel [OF this assms(2)] show ?thesis
    by (simp add: get_voted_posts_loop_of)
qed

lemma get_voted_posts_ends:
  assumes "continues env (gets st) None k" and "k < fuel"
  shows "\<exists>st'. gets st' = gets st + Suc k \<and>
     (get_script env (gets st + k) = GetRaises \<longrightarrow>
        get_voted_posts fuel env username vote_type st =
          Some (ids_of_pages env (gets st) k, st')) \<and>
     (\<forall>status_code html. get_script env (gets st + k) = GetResponse status_code html \<longrightarrow>
        (status_code = 404 \<longrightarrow>
           get_voted_posts fuel env username vote_type st = Some ({}, st')) \<and>
        (status_code \<noteq> 404 \<and> raise_for_status status_code \<longrightarrow>
           get_voted_posts fuel env username vote_type st =
             Some (ids_of_pages env (gets st) k, st')) \<and>
        (status_code \<noteq> 404 \<and> \<not> raise_for_status status_code \<and>
         stops (cursor_after env (gets st) None k) html \<longrightarrow>
           get_voted_posts fuel env username vote_type st =
             Some (ids_of_pages env (gets st) (Suc k), st')))"
proof -
  let ?st0 = "st\<lparr>accept := Some html_accept\<rparr>"
  have c: "continues env (gets ?st0) None k"
    using assms(1) by simp
  from loop_ends [OF c assms(2), of username vote_type "{}"] obtain st' where
    g: "gets st' = gets ?st0 + Suc k" and
    loop: "get_voted_posts_loop fuel env username vote_type {} None ?st0 =
       (case get_script env (gets ?st0 + k) of
          GetRaises \<Rightarrow> Some ({} \<union> ids_of_pages env (gets ?st0) k, st')
        | GetResponse status_code html \<Rightarrow>
            if status_code = 404 then Some ({}, st')
            else if raise_for_status status_code
            then Some ({} \<union> ids_of_pages env (gets ?st0) k, st')
            else if stops (cursor_after env (gets ?st0) None k) html
            then Some ({} \<union> ids_of_pages env (gets ?st0) k \<union> page_ids html, st')
            else get_voted_posts_loop (fuel - Suc k) env username vote_type
                   ({} \<union> ids_of_pages env (gets ?st0) k \<union> page_ids html)
                   (page_cursor html) (emit (ESleep pacing) st'))"
    by blast
  let ?st'' = "if str_truthy (accept st) then st'\<lparr>accept := accept st\<rparr> else st'"
  have "gets ?st'' = gets st + Suc k"
    using g by simp
  moreover have "get_script env (gets st + k) = GetRaises \<longrightarrow>
        get_voted_posts fuel env username vote_type st =
          Some (ids_of_pages env (gets st) k, ?st'')"
    using loop by (simp add: get_voted_posts_loop_of)
  moreover have "\<forall>status_code html.
      get_script env (gets st + k) = GetResponse status_code html \<longrightarrow>
        (status_code = 404 \<longrightarrow>
           get_voted_posts fuel env username vote_type st = Some ({}, ?st'')) \<and>
        (status_code \<noteq> 404 \<and> raise_for_status status_code \<longrightarrow>
           get_voted_posts fuel env username vote_type st =
             Some (ids_of_pages env (gets st) k, ?st'')) \<and>
        (status_code \<noteq> 404 \<and> \<not> raise_for_status status_code \<and>
         stops (cursor_after env (gets st) None k) html \<longrightarrow>
           get_voted_posts fuel env username vote_type st =
             Some (ids_of_pages env (gets st) (Suc k), ?st''))"
    using loop
    by (simp add: get_voted_posts_loop_of ids_of_pages_add fetched_Some del: ids_of_pages.simps)
  ultimately show ?thesis by blast
qed

lemma get_voted_posts_stops:
  assumes "continues env (gets st) None k"
    and "fetched (get_script env (gets st + k)) = Some html"
    and "stops (cursor_after env (gets st) None k) html"
    and "k < fuel"
  shows "\<exists>st'. get_voted_posts fuel env username vote_type st =
           Some (ids_of_pages env (gets st) (Suc k), st') \<and> gets st' = gets st + Suc k"
  using get_voted_posts_ends [OF assms(1,4), of username vote_type] assms(2,3)
  unfolding fetched_Some by blast

lemma get_voted_posts_not_found:
  assumes "continues env (gets st) None k"
    and "get_script env (gets st + k) = GetResponse 404 html"
    and "k < fuel"
  shows "\<exists>st'. get_voted_posts fuel env username vote_type st = Some ({}, st') \<and>
           gets st' = gets st + Suc k"
  using get_voted_posts_ends [OF assms(1,3), of username vote_type] assms(2) by blast

lemma get_voted_posts_raises:
  assumes "continues env (gets st) None k"
    and "raises (get_script env (gets st + k))"
    and "k < fuel"
  shows "\<exists>st'. get_voted_posts fuel env username vote_type st =
           Some (ids_of_pages env (gets st) k, st') \<and> gets st' = gets st + Suc k"
proof (cases "get_script env (gets st + k)")
  case GetRaises
  with get_voted_posts_ends [OF assms(1,3), of username vote_type] show ?thesis by blast
next
  case (GetResponse status_code html)
  with assms(2) have "status_code \<noteq> 404 \<and> raise_for_status status_code"
    by (simp add: raises_def)
  with GetResponse get_voted_posts_ends [OF assms(1,3), of username vote_type] show ?thesis
    by blast
qed

lemma remove_votes_of:
  "get_voted_posts fuel env username vote_type st = Some (post_ids, st1) \<Longrightarrow>
   remove_votes fuel env rm username vote_type delay callback st =
     Some (remove_votes_found env rm username vote_type delay callback post_ids st1)"
  by (simp add: remove_votes_def)

lemma simple_remove_votes_of:
  "get_voted_posts fuel env username vote_type st = Some (post_ids, st1) \<Longrightarrow>
   simple_remove_votes fuel env rm username vote_type delay st =
     Some (simple_remove_votes_found env rm vote_type delay post_ids st1)"
  by (simp add: simple_remove_votes_def)

lemma remove_votes_found_of:
  assumes "get_voted_posts fuel env username vote_type st = Some (post_ids, st1)"
    and "remove_votes fuel env rm username vote_type delay callback st = Some (Inr (stats, st'))"
  shows "remove_votes_found env rm username vote_type delay callback post_ids st1 =
     Inr (stats, st')"
  using assms(2) by (simp add: remove_votes_of [OF assms(1)])

lemma remove_votes_returns:
  assumes "get_voted_posts fuel env username vote_type st = Some (post_ids, st1)"
    and "sleep_accepted env (max pacing delay)"
  shows "\<exists>stats st'.
     remove_votes fuel env rm username vote_type delay callback st = Some (Inr (stats, st'))"
proof -
  from remove_votes_found_returns [OF assms(2)] obtain res where
    "remove_votes_found env rm username vote_type delay callback post_ids st1 = Inr res"
    by blast
  then show ?thesis
    by (cases res) (simp add: remove_votes_of [OF assms(1)])
qed

lemma simple_remove_votes_found_of:
  assumes "get_voted_posts fuel env username vote_type st = Some (post_ids, st1)"
    and "simple_remove_votes fuel env rm username vote_type delay st = Some (Inr (stats, st'))"
  shows "simple_remove_votes_found env rm vote_type delay post_ids st1 = Inr (stats, st')"
  using assms(2) by (simp add: simple_remove_votes_of [OF assms(1)])

lemma simple_remove_votes_returns:
  assumes "get_voted_posts fuel env username vote_type st = Some (post_ids, st1)"
    and "iter_ok env post_ids" and "0 \<le> delay \<and> sleep_accepted env delay"
  shows "\<exists>stats st'.
     simple_remove_votes fuel env rm username vote_type delay st = Some (Inr (stats, st'))"
proof -
  from simple_remove_votes_found_props [OF assms(2), of delay rm vote_type st1] assms(3)
  obtain res where
    "simple_remove_votes_found env rm vote_type delay post_ids st1 = Inr res"
    by blast
  then show ?thesis
    by (cases res) (simp add: simple_remove_votes_of [OF assms(1)])
qed

lemma sample_delays:
  "sleep_accepted sample_env (max pacing (1 / 2))"
  "(0 :: rat) \<le> 1 / 2 \<and> sleep_accepted sample_env (1 / 2)"
  "sleep_accepted sample_env (max pacing (1 / 10))"
  "(0 :: rat) \<le> 1 / 10 \<and> sleep_accepted pair_env (1 / 10)"
  "sleep_limit \<le> 10000000000"
  by (simp_all add: sleep_limit_def pacing_def sample_env_def pair_env_def)

lemma discovery_proj:
  assumes "get_voted_posts fuel env username vote_type st = Some (ids, st1)"
  shows "vote_calls (trace st1) = vote_calls (trace st)"
    "network_posts (trace st1) = network_posts (trace st)"
    "item_snapshots (trace st1) = item_snapshots (trace st)"
    "progress_sends (trace st1) = progress_sends (trace st)"
    "callback_calls (trace st1) = callback_calls (trace st)"
    "posts st1 = posts st"
  unfolding vote_calls_def network_posts_def item_snapshots_def progress_sends_def
    callback_calls_def
  using get_voted_posts_quiet [OF _ _ assms, of vote_call]
    get_voted_posts_quiet [OF _ _ assms, of network_post]
    get_voted_posts_quiet [OF _ _ assms, of item_snapshot]
    get_voted_posts_quiet [OF _ _ assms, of progress_send]
    get_voted_posts_quiet [OF _ _ assms, of callback_call]
  by simp_all

section \<open>The sample pages\<close>

lemmas pattern_defs = findall_def POST_ID_PATTERN_def AFTER_PATTERN_def post_id_group_def
  id_char_def ascii_lower_def cursor_group_def cursor_char_def after_json_key_def
  str_isspace_def str_replace_def

lemma page_b_reads: "page_ids page_b = {''t3_b''}" "page_cursor page_b = Some ''c1''"
  by (simp_all add: page_ids_def page_cursor_def page_b_def pattern_defs)

lemma page_a_reads: "page_ids page_a = {''t3_a''}" "page_cursor page_a = None"
  by (simp_all add: page_ids_def page_cursor_def page_a_def pattern_defs)

lemma pair_page_reads: "page_ids pair_page = {''t3_a'', ''t3_b''}" "page_cursor pair_page = None"
  by (simp_all add: page_ids_def page_cursor_def pair_page_def pattern_defs)

lemma cycle_a_reads: "page_ids cycle_a = {''t3_a''}" "page_cursor cycle_a = Some ''A''"
  by (simp_all add: page_ids_def page_cursor_def cycle_a_def pattern_defs)

lemma cycle_b_reads: "page_ids cycle_b = {''t3_b''}" "page_cursor cycle_b = Some ''B''"
  by (simp_all add: page_ids_def page_cursor_def cycle_b_def pattern_defs)

lemma sample_order: "spec_discovery_order [page_b, page_a] = [''t3_b'', ''t3_a'']"
  by (simp add: spec_discovery_order_def page_b_def page_a_def pattern_defs)

lemma sample_envs:
  "get_script sample_env = first_then (GetResponse 200 page_a)"
  "get_script pair_env = (\<lambda>k. GetResponse 200 pair_page)"
  "get_script private_env = first_then (GetResponse 404 [])"
  "get_script failing_env = first_then GetRaises"
  "get_script cycle_env = (\<lambda>k. GetResponse 200 (if even k then cycle_a else cycle_b))"
  "set_iter sample_env = (\<lambda>S. filter (\<lambda>p. p \<in> S) [''t3_a'', ''t3_b''])"
  "set_iter pair_env = set_iter sample_env"
  "set_iter private_env = set_iter sample_env"
  "set_iter failing_env = set_iter sample_env"
  "sleep_refused sample_env = (\<lambda>k secs. False)"
  "sleep_refused pair_env = (\<lambda>k secs. False)"
  by (simp_all add: sample_env_def pair_env_def private_env_def failing_env_def cycle_env_def)

lemma sample_iter_ok: "iter_ok sample_env {''t3_b'', ''t3_a''}" "iter_ok pair_env {''t3_a'', ''t3_b''}"
  by (auto simp: iter_ok_def sample_envs)

lemma sample_continues:
  "continues sample_env 0 None 1" "continues private_env 0 None 1" "continues failing_env 0 None 1"
  "continues pair_env 0 None 0"
  by (simp_all add: sample_envs first_then_def raise_for_status_def stops_def page_b_reads)

lemma sample_discovery:
  "\<exists>st1. get_voted_posts 5 sample_env ''bob'' UPVOTED configured_state =
     Some ({''t3_b'', ''t3_a''}, st1)"
proof -
  have g: "gets configured_state = 0"
    by (simp add: configured_state_def)
  have c: "continues sample_env (gets configured_state) None 1"
    using sample_continues by (simp add: g)
  have f: "fetched (get_script sample_env (gets configured_state + 1)) = Some page_a"
    by (simp add: g sample_envs first_then_def raise_for_status_def)
  have s: "stops (cursor_after sample_env (gets configured_state) None 1) page_a"
    by (simp add: stops_def page_a_reads)
  have i: "ids_of_pages sample_env (gets configured_state) (Suc 1) = {''t3_b'', ''t3_a''}"
    by (auto simp: g sample_envs first_then_def raise_for_status_def page_a_reads page_b_reads)
  from get_voted_posts_stops [OF c f s, of 5 "''bob''" UPVOTED] show ?thesis
    unfolding i by auto
qed

section \<open>Claims on a pass\<close>

text \<open>
  Claim C1. For a pass of \<open>remove_votes\<close> over any discovered set of identifiers, the
  statistics returned satisfy \<open>removed + failed = total\<close>, where \<open>total\<close> is the size of
  the discovered set: this holds of every pass that returns, in the backend and in the
  standalone script. The backend pass returns whenever \<open>time.sleep\<close> accepts the pause
  between two items: \<open>max(0.3, delay)\<close> is below the limit and the operating system does
  not refuse it. The pass of the script returns whenever the delay is not negative and
  \<open>time.sleep\<close> accepts it.
\<close>

theorem removed_plus_failed_is_total:
  assumes "get_voted_posts fuel env username vote_type st = Some (post_ids, st1)"
    and "iter_ok env post_ids"
  shows "(\<forall>stats st'.
            remove_votes fuel env rm username vote_type delay callback st = Some (Inr (stats, st')) \<longrightarrow>
            total_count stats = card post_ids \<and>
            removed_count stats + failed_count stats = total_count stats) \<and>
         (\<forall>stats st'.
            simple_remove_votes fuel env rm username vote_type delay st = Some (Inr (stats, st')) \<longrightarrow>
            total_count stats = card post_ids \<and>
            removed_count stats + failed_count stats = total_count stats) \<and>
         (sleep_accepted env (max pacing delay) \<longrightarrow>
            (\<exists>stats st'.
               remove_votes fuel env rm username vote_type delay callback st =
                 Some (Inr (stats, st')))) \<and>
         (0 \<le> delay \<and> sleep_accepted env delay \<longrightarrow>
            (\<exists>stats st'.
               simple_remove_votes fuel env rm username vote_type delay st =
                 Some (Inr (stats, st'))))"
proof -
  have backend: "total_count stats = card post_ids \<and>
      removed_count stats + failed_count stats = total_count stats"
    if "remove_votes fuel env rm username vote_type delay callback st = Some (Inr (stats, st'))"
    for stats st'
    using remove_votes_found_counts [OF assms(2) remove_votes_found_of [OF assms(1) that]]
    by simp
  have script: "total_count stats = card post_ids \<and>
      removed_count stats + failed_count stats = total_count stats"
    if "simple_remove_votes fuel env rm username vote_type delay st = Some (Inr (stats, st'))"
    for stats st'
    using simple_remove_votes_found_props [OF assms(2), of delay rm vote_type st1]
      simple_remove_votes_found_of [OF assms(1) that]
    by simp
  have returns: "\<exists>stats st'.
      remove_votes fuel env rm username vote_type delay callback st = Some (Inr (stats, st'))"
    if "sleep_accepted env (max pacing delay)"
    using that by (rule remove_votes_returns [OF assms(1)])
  have script_returns: "\<exists>stats st'.
      simple_remove_votes fuel env rm username vote_type delay st = Some (Inr (stats, st'))"
    if "0 \<le> delay \<and> sleep_accepted env delay"
    using that simple_remove_votes_returns [OF assms(1) assms(2)] by blast
  from backend script returns script_returns show ?thesis
    by blast
qed

theorem removed_plus_failed_is_total_witness:
  "iter_ok sample_env {''t3_b'', ''t3_a''} \<and>
   (\<exists>st1. get_voted_posts 5 sample_env ''bob'' UPVOTED configured_state =
      Some ({''t3_b'', ''t3_a''}, st1)) \<and>
   sleep_accepted sample_env (max pacing (1 / 2)) \<and>
   (\<exists>stats st'.
      remove_votes 5 sample_env sample_remover ''bob'' UPVOTED (1 / 2) None configured_state =
        Some (Inr (stats, st')) \<and>
      total_count stats = 2 \<and> removed_count stats + failed_count stats = 2) \<and>
   (\<exists>stats st'.
      simple_remove_votes 5 sample_env sample_remover ''bob'' UPVOTED (1 / 2) configured_state =
        Some (Inr (stats, st')) \<and>
      total_count stats = 2 \<and> removed_count stats + failed_count stats = 2)"
proof -
  from sample_discovery obtain st1 where
    d: "get_voted_posts 5 sample_env ''bob'' UPVOTED configured_state =
      Some ({''t3_b'', ''t3_a''}, st1)"
    by blast
  have c: "card {''t3_b'', ''t3_a''} = 2"
    by simp
  note t = removed_plus_failed_is_total [OF d sample_iter_ok(1), of sample_remover "1 / 2" None,
      unfolded c]
  from t [THEN conjunct2, THEN conjunct2, THEN conjunct1, rule_format, OF sample_delays(1)]
  obtain stats st' where
    r: "remove_votes 5 sample_env sample_remover ''bob'' UPVOTED (1 / 2) None configured_state =
        Some (Inr (stats, st'))"
    by blast
  from t [THEN conjunct1, rule_format, OF r] have "total_count stats = 2 \<and>
      removed_count stats + failed_count stats = total_count stats"
    by simp
  with r have backend: "\<exists>stats st'.
      remove_votes 5 sample_env sample_remover ''bob'' UPVOTED (1 / 2) None configured_state =
        Some (Inr (stats, st')) \<and>
      total_count stats = 2 \<and> removed_count stats + failed_count stats = 2"
    by auto
  from t [THEN conjunct2, THEN conjunct2, THEN conjunct2, rule_format,
      OF sample_delays(2)]
  obtain stats2 st2 where
    r2: "simple_remove_votes 5 sample_env sample_remover ''bob'' UPVOTED (1 / 2)
        configured_state = Some (Inr (stats2, st2))"
    by blast
  from t [THEN conjunct2, THEN conjunct1, rule_format, OF r2] have "total_count stats2 = 2 \<and>
      removed_count stats2 + failed_count stats2 = total_count stats2"
    by simp
  with r2 have script: "\<exists>stats st'.
      simple_remove_votes 5 sample_env sample_remover ''bob'' UPVOTED (1 / 2) configured_state =
        Some (Inr (stats, st')) \<and>
      total_count stats = 2 \<and> removed_count stats + failed_count stats = 2"
    by auto
  have "\<exists>st1. get_voted_posts 5 sample_env ''bob'' UPVOTED configured_state =
      Some ({''t3_b'', ''t3_a''}, st1)"
    using d by (rule exI)
  with sample_iter_ok(1) sample_delays(1) [THEN conjunct1]
    sample_delays(1) [THEN conjunct2] backend script
  show ?thesis
    by (intro conjI)
qed


lemma sample_iteration: "set_iter sample_env {''t3_b'', ''t3_a''} = [''t3_a'', ''t3_b'']"
  by (simp add: sample_envs)




section \<open>A remover without a token\<close>






section \<open>Claims on discovery\<close>

text \<open>
  Claim C7. If a page request of discovery is answered with status 404, the earlier pages
  having been fetched, discovery returns the empty set, whatever it had accumulated. The
  pass then returns the statistics \<open>total = 0, removed = 0, failed = 0\<close>; it reports
  exactly one progress event, with status \<open>warning\<close>, which reaches the callback when there
  is one; it calls \<open>_vote\<close> not once and sends no request after the one answered 404.
\<close>

theorem not_found_gives_empty_pass:
  assumes "continues env (gets st) None k"
    and "get_script env (gets st + k) = GetResponse 404 html"
    and "k < fuel"
  shows "\<exists>st1 st'.
     get_voted_posts fuel env username vote_type st = Some ({}, st1) \<and>
     remove_votes fuel env rm username vote_type delay callback st =
       Some (Inr (\<lparr>total_count = 0, removed_count = 0, failed_count = 0\<rparr>, st')) \<and>
     progress_sends (trace st') =
       progress_sends (trace st) @
         [(MsgNoPosts vote_type username, ''warning'',
           Snapshot \<lparr>total_count = 0, removed_count = 0, failed_count = 0\<rparr>)] \<and>
     callback_calls (trace st') =
       callback_calls (trace st) @
         (case callback of
            None \<Rightarrow> []
          | Some f \<Rightarrow>
              [(MsgNoPosts vote_type username, ''warning'',
                Snapshot \<lparr>total_count = 0, removed_count = 0, failed_count = 0\<rparr>)]) \<and>
     vote_calls (trace st') = vote_calls (trace st) \<and>
     network_posts (trace st') = network_posts (trace st) \<and>
     gets st' = gets st + Suc k"
proof -
  from get_voted_posts_not_found [OF assms, of username vote_type] obtain st1 where
    d: "get_voted_posts fuel env username vote_type st = Some ({}, st1)" and
    g: "gets st1 = gets st + Suc k"
    by blast
  let ?zero = "\<lparr>total_count = 0, removed_count = 0, failed_count = 0\<rparr>"
  let ?st' = "send_progress callback (MsgNoPosts vote_type username) ''warning''
      (Snapshot ?zero) st1"
  have r: "remove_votes fuel env rm username vote_type delay callback st = Some (Inr (?zero, ?st'))"
    by (simp add: remove_votes_of [OF d] remove_votes_found_empty)
  have "progress_sends (trace ?st') =
      progress_sends (trace st) @ [(MsgNoPosts vote_type username, ''warning'', Snapshot ?zero)]"
    unfolding discovery_proj(4) [OF d, symmetric]
    by (auto simp: progress_sends_def proj_simps split: option.splits)
  moreover have "callback_calls (trace ?st') =
      callback_calls (trace st) @
        (case callback of
           None \<Rightarrow> []
         | Some f \<Rightarrow> [(MsgNoPosts vote_type username, ''warning'', Snapshot ?zero)])"
    unfolding discovery_proj(5) [OF d, symmetric]
    by (auto simp: callback_calls_def proj_simps split: option.splits)
  moreover have "vote_calls (trace ?st') = vote_calls (trace st)"
    "network_posts (trace ?st') = network_posts (trace st)"
    by (simp_all add: send_progress_proj discovery_proj [OF d])
  moreover have "gets ?st' = gets st + Suc k"
    by (simp add: send_progress_fields g)
  ultimately show ?thesis
    using d r by blast
qed

lemma private_pages:
  "get_script private_env 1 = GetResponse 404 []" "ids_of_pages private_env 0 1 = {''t3_b''}"
  by (simp_all add: sample_envs first_then_def raise_for_status_def page_b_reads)

theorem not_found_gives_empty_pass_witness:
  "continues private_env (gets configured_state) None 1 \<and>
   get_script private_env (gets configured_state + 1) = GetResponse 404 [] \<and> (1::nat) < 5 \<and>
   ids_of_pages private_env (gets configured_state) 1 = {''t3_b''} \<and>
   (\<exists>st1 st'.
      get_voted_posts 5 private_env ''bob'' UPVOTED configured_state = Some ({}, st1) \<and>
      remove_votes 5 private_env sample_remover ''bob'' UPVOTED (1 / 2) (Some raising_callback)
        configured_state =
        Some (Inr (\<lparr>total_count = 0, removed_count = 0, failed_count = 0\<rparr>, st')) \<and>
      progress_sends (trace st') =
        [(MsgNoPosts UPVOTED ''bob'', ''warning'',
          Snapshot \<lparr>total_count = 0, removed_count = 0, failed_count = 0\<rparr>)] \<and>
      callback_calls (trace st') =
        [(MsgNoPosts UPVOTED ''bob'', ''warning'',
          Snapshot \<lparr>total_count = 0, removed_count = 0, failed_count = 0\<rparr>)] \<and>
      vote_calls (trace st') = [] \<and> network_posts (trace st') = [] \<and> gets st' = 2)"
proof -
  have g: "gets configured_state = 0" "trace configured_state = []"
    by (simp_all add: configured_state_def)
  have c: "continues private_env (gets configured_state) None 1"
    using sample_continues by (simp add: g)
  have p: "get_script private_env (gets configured_state + 1) = GetResponse 404 []"
    using private_pages by (simp add: g)
  have i: "ids_of_pages private_env (gets configured_state) 1 = {''t3_b''}"
    using private_pages by (simp add: g)
  have l: "(1::nat) < 5" by simp
  from not_found_gives_empty_pass [OF c p l, of "''bob''" UPVOTED sample_remover "1 / 2"
      "Some raising_callback"]
  obtain st1 st' where
    "get_voted_posts 5 private_env ''bob'' UPVOTED configured_state = Some ({}, st1)"
    "remove_votes 5 private_env sample_remover ''bob'' UPVOTED (1 / 2) (Some raising_callback)
        configured_state =
        Some (Inr (\<lparr>total_count = 0, removed_count = 0, failed_count = 0\<rparr>, st'))"
    "progress_sends (trace st') =
        progress_sends (trace configured_state) @
        [(MsgNoPosts UPVOTED ''bob'', ''warning'',
          Snapshot \<lparr>total_count = 0, removed_count = 0, failed_count = 0\<rparr>)]"
    "callback_calls (trace st') =
        callback_calls (trace configured_state) @
        (case Some raising_callback of
           None \<Rightarrow> []
         | Some f \<Rightarrow>
             [(MsgNoPosts UPVOTED ''bob'', ''warning'',
               Snapshot \<lparr>total_count = 0, removed_count = 0, failed_count = 0\<rparr>)])"
    "vote_calls (trace st') = vote_calls (trace configured_state)"
    "network_posts (trace st') = network_posts (trace configured_state)"
    "gets st' = gets configured_state + Suc 1"
    by blast
  then have
    "get_voted_posts 5 private_env ''bob'' UPVOTED configured_state = Some ({}, st1) \<and>
     remove_votes 5 private_env sample_remover ''bob'' UPVOTED (1 / 2) (Some raising_callback)
        configured_state =
        Some (Inr (\<lparr>total_count = 0, removed_count = 0, failed_count = 0\<rparr>, st')) \<and>
      progress_sends (trace st') =
        [(MsgNoPosts UPVOTED ''bob'', ''warning'',
          Snapshot \<lparr>total_count = 0, removed_count = 0, failed_count = 0\<rparr>)] \<and>
      callback_calls (trace st') =
        [(MsgNoPosts UPVOTED ''bob'', ''warning'',
          Snapshot \<lparr>total_count = 0, removed_count = 0, failed_count = 0\<rparr>)] \<and>
      vote_calls (trace st') = [] \<and> network_posts (trace st') = [] \<and> gets st' = 2"
    by (simp add: g progress_sends_def callback_calls_def vote_calls_def network_posts_def
        List.map_filter_simps)
  with c p i l show ?thesis
    by blast
qed

text \<open>
  Claim C9. If a page request raises after at least one page was fetched and the loop
  went on (the request itself fails, or the status is an error other than 404), discovery
  returns the identifiers accumulated over the pages fetched so far. That set is not empty.
\<close>

theorem exception_keeps_partial_results:
  assumes "continues env (gets st) None k"
    and "0 < k"
    and "raises (get_script env (gets st + k))"
    and "k < fuel"
  shows "\<exists>st'.
     get_voted_posts fuel env username vote_type st = Some (ids_of_pages env (gets st) k, st') \<and>
     ids_of_pages env (gets st) k \<noteq> {}"
  using get_voted_posts_raises [OF assms(1,3,4), of username vote_type]
    continues_has_ids [OF assms(1,2)]
  by blast

theorem exception_keeps_partial_results_witness:
  "continues failing_env (gets configured_state) None 1 \<and> (0::nat) < 1 \<and>
   raises (get_script failing_env (gets configured_state + 1)) \<and> (1::nat) < 5 \<and>
   (\<exists>st'. get_voted_posts 5 failing_env ''bob'' UPVOTED configured_state =
      Some ({''t3_b''}, st'))"
proof -
  have g: "gets configured_state = 0"
    by (simp add: configured_state_def)
  have c: "continues failing_env (gets configured_state) None 1"
    using sample_continues by (simp add: g)
  have r: "raises (get_script failing_env (gets configured_state + 1))"
    by (simp add: g sample_envs first_then_def raises_def)
  have i: "ids_of_pages failing_env (gets configured_state) 1 = {''t3_b''}"
    by (simp add: g sample_envs first_then_def raise_for_status_def page_b_reads)
  have l: "(0::nat) < 1" "(1::nat) < 5" by simp_all
  from exception_keeps_partial_results [OF c l(1) r l(2), of "''bob''" UPVOTED]
  show ?thesis
    using c r unfolding i by auto
qed

lemma loop_halts_iff_stops:
  assumes "fetched (get_script env (gets st)) = Some html"
  shows "(get_voted_posts_loop 1 env username vote_type all_ids after st \<noteq> None) =
         stops after html"
proof -
  from assms obtain status_code where
    reply: "get_script env (gets st) = GetResponse status_code html"
    "status_code \<noteq> 404" "\<not> raise_for_status status_code"
    by (auto simp: fetched_Some)
  from loop_turn [of st 0 env username vote_type all_ids after] obtain st1 where
    turn: "get_voted_posts_loop (Suc 0) env username vote_type all_ids after st =
       (case get_script env (gets st) of
          GetRaises \<Rightarrow> Some (all_ids, st1)
        | GetResponse status_code html \<Rightarrow>
            if status_code = 404 then Some ({}, st1)
            else if raise_for_status status_code then Some (all_ids, st1)
            else if stops after html then Some (all_ids \<union> page_ids html, st1)
            else get_voted_posts_loop 0 env username vote_type (all_ids \<union> page_ids html)
                   (page_cursor html) (emit (ESleep pacing) st1))"
    by blast
  have "get_voted_posts_loop (Suc 0) env username vote_type all_ids after st =
      (if stops after html then Some (all_ids \<union> page_ids html, st1) else None)"
    unfolding turn
    by (simp add: reply get_voted_posts_loop.simps(1) del: get_voted_posts_loop.simps(2))
  then show ?thesis
    unfolding One_nat_def by simp
qed

text \<open>
  Claim C2, as amended. After a fetched page the loop of discovery stops exactly when no
  cursor is extracted from the page, or the extracted cursor equals the cursor of the
  previous iteration, or the page yields no identifier at all. If the first \<open>k\<close> pages
  are fetched and meet none of these tests and the next page is fetched and meets one,
  discovery halts after exactly \<open>k + 1\<close> iterations: it has not returned with \<open>k\<close> units of
  fuel or fewer, and with more it returns the identifiers of these \<open>k + 1\<close> pages, having
  sent \<open>k + 1\<close> requests.
\<close>

theorem pagination_stops_at_first_stop_test:
  assumes "continues env (gets st) None k"
    and "fetched (get_script env (gets st + k)) = Some html"
    and "stops (cursor_after env (gets st) None k) html"
  shows "(get_voted_posts fuel env username vote_type st = None) = (fuel \<le> k) \<and>
         (k < fuel \<longrightarrow>
            (\<exists>st'. get_voted_posts fuel env username vote_type st =
                      Some (ids_of_pages env (gets st) (Suc k), st') \<and>
                    gets st' = gets st + Suc k)) \<and>
         (get_voted_posts_loop 1 env username vote_type all_ids after
            (st\<lparr>gets := gets st + k\<rparr>) \<noteq> None) = stops after html"
proof -
  have late: "\<exists>st'. get_voted_posts fuel env username vote_type st =
                      Some (ids_of_pages env (gets st) (Suc k), st') \<and>
                    gets st' = gets st + Suc k" if "k < fuel"
    using get_voted_posts_stops [OF assms that] .
  have early: "get_voted_posts fuel env username vote_type st = None" if "fuel \<le> k"
    using get_voted_posts_out_of_fuel [OF assms(1) that] .
  have "(get_voted_posts fuel env username vote_type st = None) = (fuel \<le> k)"
  proof (cases "fuel \<le> k")
    case True
    with early show ?thesis by simp
  next
    case False
    then have "k < fuel" by simp
    from late [OF this] False show ?thesis by auto
  qed
  moreover have "(get_voted_posts_loop 1 env username vote_type all_ids after
            (st\<lparr>gets := gets st + k\<rparr>) \<noteq> None) = stops after html"
    using assms(2) by (intro loop_halts_iff_stops) simp
  ultimately show ?thesis
    using late by blast
qed

theorem pagination_stops_at_first_stop_test_witness:
  "continues sample_env (gets configured_state) None 1 \<and>
   fetched (get_script sample_env (gets configured_state + 1)) = Some page_a \<and>
   stops (cursor_after sample_env (gets configured_state) None 1) page_a \<and>
   get_voted_posts 1 sample_env ''bob'' UPVOTED configured_state = None \<and>
   (\<exists>st'. get_voted_posts 2 sample_env ''bob'' UPVOTED configured_state =
      Some ({''t3_b'', ''t3_a''}, st') \<and> gets st' = 2)"
proof -
  have g: "gets configured_state = 0"
    by (simp add: configured_state_def)
  have c: "continues sample_env (gets configured_state) None 1"
    using sample_continues by (simp add: g)
  have f: "fetched (get_script sample_env (gets configured_state + 1)) = Some page_a"
    by (simp add: g sample_envs first_then_def raise_for_status_def)
  have s: "stops (cursor_after sample_env (gets configured_state) None 1) page_a"
    by (simp add: stops_def page_a_reads)
  have i: "ids_of_pages sample_env (gets configured_state) (Suc 1) = {''t3_b'', ''t3_a''}"
    by (auto simp: g sample_envs first_then_def raise_for_status_def page_a_reads page_b_reads)
  note t = pagination_stops_at_first_stop_test [OF c f s, of _ "''bob''" UPVOTED "{}" None]
  from t [of 1, THEN conjunct1]
  have one: "get_voted_posts 1 sample_env ''bob'' UPVOTED configured_state = None"
    by simp
  from t [of 2, THEN conjunct2, THEN conjunct1]
  have two: "\<exists>st'. get_voted_posts 2 sample_env ''bob'' UPVOTED configured_state =
      Some ({''t3_b'', ''t3_a''}, st') \<and> gets st' = 2"
    unfolding i by (simp add: g numeral_2_eq_2)
  from c f s one two show ?thesis by blast
qed

text \<open>
  The claim as stated fails on a listing whose pages form a cycle of two: the cursor of
  the first page comes back on the third, which also brings no new identifier, and yet
  every page has identifiers and a cursor that differs from the one before it.
\<close>

lemma cycle_continues:
  "after \<noteq> Some (if even g then ''A'' else ''B'') \<Longrightarrow> continues cycle_env g after k"
proof (induction k arbitrary: g after)
  case 0
  show ?case by simp
next
  case (Suc k)
  have "continues cycle_env (Suc g) (Some (if even g then ''A'' else ''B'')) k"
    by (rule Suc.IH) simp
  with Suc.prems show ?case
    by (auto simp: sample_envs raise_for_status_def stops_def cycle_a_reads cycle_b_reads)
qed

lemma cycle_never_halts: "get_voted_posts fuel cycle_env username vote_type st = None"
proof -
  have "continues cycle_env (gets st) None fuel"
    by (rule cycle_continues) simp
  then show ?thesis
    by (rule get_voted_posts_out_of_fuel) simp
qed

theorem pagination_cycle_counterexample:
  "get_script cycle_env 0 = GetResponse 200 cycle_a \<and>
   get_script cycle_env 1 = GetResponse 200 cycle_b \<and>
   get_script cycle_env 2 = GetResponse 200 cycle_a \<and>
   page_cursor cycle_a = Some ''A'' \<and> page_cursor cycle_b = Some ''B'' \<and>
   page_ids cycle_a = {''t3_a''} \<and> page_ids cycle_b = {''t3_b''} \<and>
   get_voted_posts 6 cycle_env ''bob'' UPVOTED configured_state = None"
  by (simp add: sample_envs cycle_a_reads cycle_b_reads cycle_never_halts)

section \<open>Pacing\<close>

lemma spec_pacing_Cons:
  "spec_pacing vote_state gap (p # ids) =
     (if ids = [] then [PVote p vote_state, PSleep pacing, PVote p NONE]
      else [PVote p vote_state, PSleep pacing, PVote p NONE] @ [PSleep gap] @
           spec_pacing vote_state gap ids)"
  by (simp add: spec_pacing_def sep_by_Cons)

lemma spec_pacing_last:
  "ids \<noteq> [] \<Longrightarrow> spec_pacing vote_state gap ids \<noteq> [] \<and>
     last (spec_pacing vote_state gap ids) = PVote (last ids) NONE"
  by (induction ids) (auto simp: spec_pacing_Cons)

lemma get_voted_posts_first_page:
  assumes "fetched (get_script env (gets st)) = Some html" and "stops None html" and "0 < fuel"
  shows "\<exists>st1. get_voted_posts fuel env username vote_type st = Some (page_ids html, st1) \<and>
           pace_view (trace st1) = pace_view (trace st)"
proof -
  from assms(3) obtain n where fuel: "fuel = Suc n"
    by (cases fuel) auto
  from assms(1) obtain status_code where
    reply: "get_script env (gets st) = GetResponse status_code html"
    "status_code \<noteq> 404" "\<not> raise_for_status status_code"
    by (auto simp: fetched_Some)
  let ?st0 = "st\<lparr>accept := Some html_accept\<rparr>"
  from loop_turn [of ?st0 n env username vote_type "{}" None] obtain st1 url params where
    t: "trace st1 = trace ?st0 @ [EGet url params (accept ?st0)]" and
    turn: "get_voted_posts_loop (Suc n) env username vote_type {} None ?st0 =
      Some (page_ids html, st1)"
    using reply assms(2) by auto
  have "pace_view (trace st1) = pace_view (trace st)"
    by (simp add: t pace_view_def map_filter_append List.map_filter_simps)
  with turn show ?thesis
    by (simp add: fuel get_voted_posts_loop_of pace_view_def)
qed

text \<open>
  Claim C5, as amended. In the backend, \<open>remove_votes\<close> clamps the delay of the caller
  upward to the minimum of 0.3: a pass that returns has paused for \<open>max(0.3, delay)\<close>
  between two consecutive items and has not paused after the last item, its last paced
  action being the clearing call of the last item. The pass returns whenever
  \<open>time.sleep\<close> accepts that pause. In the standalone script a pass of \<open>remove_votes\<close>
  that returns has paused between two consecutive items for the delay as it was passed,
  without clamping it, and again not after the last item.
\<close>

theorem pacing_between_items:
  assumes "get_voted_posts fuel env username vote_type st = Some (post_ids, st1)"
    and "iter_ok env post_ids"
  shows "(\<forall>stats st'.
            remove_votes fuel env rm username vote_type delay callback st = Some (Inr (stats, st')) \<longrightarrow>
            pace_view (trace st') =
              pace_view (trace st1) @
              spec_pacing (if vote_type = UPVOTED then UP else DOWN) (max pacing delay)
                (set_iter env post_ids) \<and>
            (post_ids \<noteq> {} \<longrightarrow>
               last (pace_view (trace st')) = PVote (last (set_iter env post_ids)) NONE)) \<and>
         (sleep_accepted env (max pacing delay) \<longrightarrow>
            (\<exists>stats st'.
               remove_votes fuel env rm username vote_type delay callback st =
                 Some (Inr (stats, st')))) \<and>
         pacing \<le> max pacing delay \<and> delay \<le> max pacing delay \<and>
         (\<forall>stats st'.
            simple_remove_votes fuel env rm username vote_type delay st = Some (Inr (stats, st')) \<longrightarrow>
            pace_view (trace st') =
              pace_view (trace st1) @
              spec_pacing (if vote_type = UPVOTED then UP else DOWN) delay
                (set_iter env post_ids) \<and>
            (post_ids \<noteq> {} \<longrightarrow>
               last (pace_view (trace st')) = PVote (last (set_iter env post_ids)) NONE))"
proof -
  let ?vs = "if vote_type = UPVOTED then UP else DOWN"
  have ne: "set_iter env post_ids \<noteq> []" if "post_ids \<noteq> {}"
    using that assms(2) by (auto simp: iter_ok_def)
  have tail: "last (xs @ spec_pacing ?vs gap (set_iter env post_ids)) =
      PVote (last (set_iter env post_ids)) NONE" if "post_ids \<noteq> {}" for xs gap
    using spec_pacing_last [OF ne [OF that], of ?vs gap] by simp
  have backend: "pace_view (trace st') =
        pace_view (trace st1) @ spec_pacing ?vs (max pacing delay) (set_iter env post_ids) \<and>
      (post_ids \<noteq> {} \<longrightarrow>
         last (pace_view (trace st')) = PVote (last (set_iter env post_ids)) NONE)"
    if "remove_votes fuel env rm username vote_type delay callback st = Some (Inr (stats, st'))"
    for stats st'
  proof -
    from remove_votes_found_pacing [OF assms(2) remove_votes_found_of [OF assms(1) that]]
    have "pace_view (trace st') =
        pace_view (trace st1) @ spec_pacing ?vs (max pacing delay) (set_iter env post_ids)" .
    with tail show ?thesis by auto
  qed
  have returns: "\<exists>stats st'.
      remove_votes fuel env rm username vote_type delay callback st = Some (Inr (stats, st'))"
    if "sleep_accepted env (max pacing delay)"
    using that by (rule remove_votes_returns [OF assms(1)])
  have script: "pace_view (trace st') =
        pace_view (trace st1) @ spec_pacing ?vs delay (set_iter env post_ids) \<and>
      (post_ids \<noteq> {} \<longrightarrow>
         last (pace_view (trace st')) = PVote (last (set_iter env post_ids)) NONE)"
    if "simple_remove_votes fuel env rm username vote_type delay st = Some (Inr (stats, st'))"
    for stats st'
  proof -
    from that have "simple_remove_votes_found env rm vote_type delay post_ids st1 =
        Inr (stats, st')"
      by (simp add: simple_remove_votes_of [OF assms(1)])
    with simple_remove_votes_found_props [OF assms(2), of delay rm vote_type st1]
    have "pace_view (trace st') =
        pace_view (trace st1) @ spec_pacing ?vs delay (set_iter env post_ids)"
      by blast
    with tail show ?thesis by auto
  qed
  have clamp: "pacing \<le> max pacing delay \<and> delay \<le> max pacing delay"
    by simp
  from backend returns clamp script show ?thesis
    by blast
qed

lemma sample_pacing:
  "spec_pacing UP gap [''t3_a'', ''t3_b''] =
     [PVote ''t3_a'' UP, PSleep pacing, PVote ''t3_a'' NONE, PSleep gap,
      PVote ''t3_b'' UP, PSleep pacing, PVote ''t3_b'' NONE]"
  by (simp add: spec_pacing_Cons)

theorem pacing_between_items_witness:
  "iter_ok sample_env {''t3_b'', ''t3_a''} \<and>
   sleep_accepted sample_env (max pacing (1 / 10)) \<and>
   (\<exists>st1 stats st'.
      get_voted_posts 5 sample_env ''bob'' UPVOTED configured_state =
        Some ({''t3_b'', ''t3_a''}, st1) \<and>
      remove_votes 5 sample_env sample_remover ''bob'' UPVOTED (1 / 10) None configured_state =
        Some (Inr (stats, st')) \<and>
      pace_view (trace st') =
        pace_view (trace st1) @
        [PVote ''t3_a'' UP, PSleep pacing, PVote ''t3_a'' NONE, PSleep pacing,
         PVote ''t3_b'' UP, PSleep pacing, PVote ''t3_b'' NONE])"
proof -
  from sample_discovery obtain st1 where
    d: "get_voted_posts 5 sample_env ''bob'' UPVOTED configured_state =
      Some ({''t3_b'', ''t3_a''}, st1)"
    by blast
  have m: "max pacing (1 / 10) = pacing"
    by (simp add: pacing_def)
  note t = pacing_between_items [OF d sample_iter_ok(1), of sample_remover "1 / 10" None,
      unfolded m sample_iteration]
  from t [THEN conjunct2, THEN conjunct1, rule_format, OF sample_delays(3) [unfolded m]]
  obtain stats st' where
    r: "remove_votes 5 sample_env sample_remover ''bob'' UPVOTED (1 / 10) None configured_state =
        Some (Inr (stats, st'))"
    by blast
  from t [THEN conjunct1, rule_format, OF r] have "pace_view (trace st') =
        pace_view (trace st1) @
        spec_pacing (if UPVOTED = UPVOTED then UP else DOWN) pacing [''t3_a'', ''t3_b'']"
    by simp
  then have "pace_view (trace st') =
        pace_view (trace st1) @
        [PVote ''t3_a'' UP, PSleep pacing, PVote ''t3_a'' NONE, PSleep pacing,
         PVote ''t3_b'' UP, PSleep pacing, PVote ''t3_b'' NONE]"
    by (simp add: sample_pacing)
  with d r have "\<exists>st1 stats st'.
      get_voted_posts 5 sample_env ''bob'' UPVOTED configured_state =
        Some ({''t3_b'', ''t3_a''}, st1) \<and>
      remove_votes 5 sample_env sample_remover ''bob'' UPVOTED (1 / 10) None configured_state =
        Some (Inr (stats, st')) \<and>
      pace_view (trace st') =
        pace_view (trace st1) @
        [PVote ''t3_a'' UP, PSleep pacing, PVote ''t3_a'' NONE, PSleep pacing,
         PVote ''t3_b'' UP, PSleep pacing, PVote ''t3_b'' NONE]"
    by blast
  with sample_iter_ok(1) sample_delays(3) [THEN conjunct1]
    sample_delays(3) [THEN conjunct2]
  show ?thesis
    by (intro conjI)
qed

text \<open>
  The claim as stated fails on the standalone script: with a delay of one tenth the pause
  between the two items of a pass is one tenth, not the minimum of 0.3.
\<close>

theorem simple_delay_not_clamped:
  "pace_view (pass_trace
     (simple_remove_votes 5 pair_env sample_remover ''bob'' UPVOTED (1 / 10) configured_state)) =
     [PVote ''t3_a'' UP, PSleep pacing, PVote ''t3_a'' NONE, PSleep (1 / 10),
      PVote ''t3_b'' UP, PSleep pacing, PVote ''t3_b'' NONE] \<and>
   max pacing (1 / 10) \<noteq> 1 / 10"
proof -
  have g: "gets configured_state = 0" "trace configured_state = []"
    by (simp_all add: configured_state_def)
  have f: "fetched (get_script pair_env (gets configured_state)) = Some pair_page"
    by (simp add: sample_envs raise_for_status_def)
  have s: "stops None pair_page"
    by (simp add: stops_def pair_page_reads)
  from get_voted_posts_first_page [OF f s, of 5 "''bob''" UPVOTED] obtain st1 where
    d: "get_voted_posts 5 pair_env ''bob'' UPVOTED configured_state =
      Some ({''t3_a'', ''t3_b''}, st1)" and
    v: "pace_view (trace st1) = []"
    by (auto simp: pair_page_reads g pace_view_def)
  have it: "set_iter pair_env {''t3_a'', ''t3_b''} = [''t3_a'', ''t3_b'']"
    by (simp add: sample_envs)
  from simple_remove_votes_found_props [OF sample_iter_ok(2), of "1 / 10" sample_remover
      UPVOTED st1]
    sample_delays(4)
  obtain stats st' where
    found: "simple_remove_votes_found pair_env sample_remover UPVOTED (1 / 10)
      {''t3_a'', ''t3_b''} st1 = Inr (stats, st')"
    by auto
  with simple_remove_votes_found_props [OF sample_iter_ok(2), of "1 / 10" sample_remover
      UPVOTED st1]
  have "pace_view (trace st') =
      pace_view (trace st1) @
      spec_pacing (if UPVOTED = UPVOTED then UP else DOWN) (1 / 10)
        (set_iter pair_env {''t3_a'', ''t3_b''})"
    by blast
  then have "pace_view (trace st') =
     [PVote ''t3_a'' UP, PSleep pacing, PVote ''t3_a'' NONE, PSleep (1 / 10),
      PVote ''t3_b'' UP, PSleep pacing, PVote ''t3_b'' NONE]"
    unfolding it v by (simp add: sample_pacing)
  moreover have "pass_trace
     (simple_remove_votes 5 pair_env sample_remover ''bob'' UPVOTED (1 / 10) configured_state) =
     trace st'"
    by (simp add: simple_remove_votes_of [OF d] found pass_trace_def)
  moreover have "max pacing (1 / 10) \<noteq> 1 / 10"
    by (simp add: pacing_def)
  ultimately show ?thesis by simp
qed

section \<open>Order of mutation\<close>

lemma cleared_ids:
  assumes "vote_state \<noteq> NONE"
    and "map (\<lambda>(p, s, r). (p, s)) calls =
         concat (map (\<lambda>p. [(p, vote_state), (p, NONE)]) ids)"
  shows "map fst (filter (\<lambda>(p, s, r). s = NONE) calls) = ids"
proof -
  have "map fst (filter (\<lambda>(p, s, r). s = NONE) calls) =
      map fst (filter (\<lambda>(p, s). s = NONE) (map (\<lambda>(p, s, r). (p, s)) calls))"
    by (induction calls) auto
  also have "\<dots> = map fst (filter (\<lambda>(p, s). s = NONE)
      (concat (map (\<lambda>p. [(p, vote_state), (p, NONE)]) ids)))"
    by (simp only: assms(2))
  also have "\<dots> = ids"
    using assms(1) by (induction ids) auto
  finally show ?thesis .
qed

text \<open>
  Claim C6, as amended. A pass of \<open>remove_votes\<close> that returns has mutated every discovered
  identifier exactly once, in the order in which the set returned by discovery is
  iterated. That order belongs to the set: it need not be the order in which discovery
  met the identifiers. The pass returns whenever \<open>time.sleep\<close> accepts the pause between
  two items, \<open>max(0.3, delay)\<close>.
\<close>

theorem mutation_follows_set_iteration:
  assumes "get_voted_posts fuel env username vote_type st = Some (post_ids, st1)"
    and "iter_ok env post_ids"
  shows "(\<forall>stats st'.
            remove_votes fuel env rm username vote_type delay callback st = Some (Inr (stats, st')) \<longrightarrow>
            (\<exists>calls.
               vote_calls (trace st') = vote_calls (trace st) @ calls \<and>
               map fst (filter (\<lambda>(p, s, r). s = NONE) calls) = set_iter env post_ids)) \<and>
         distinct (set_iter env post_ids) \<and> set (set_iter env post_ids) = post_ids \<and>
         (sleep_accepted env (max pacing delay) \<longrightarrow>
            (\<exists>stats st'.
               remove_votes fuel env rm username vote_type delay callback st =
                 Some (Inr (stats, st'))))"
proof -
  have order: "\<exists>calls.
      vote_calls (trace st') = vote_calls (trace st) @ calls \<and>
      map fst (filter (\<lambda>(p, s, r). s = NONE) calls) = set_iter env post_ids"
    if "remove_votes fuel env rm username vote_type delay callback st = Some (Inr (stats, st'))"
    for stats st'
  proof -
    from remove_votes_found_calls [OF assms(2) remove_votes_found_of [OF assms(1) that]]
    obtain calls where
      c: "vote_calls (trace st') = vote_calls (trace st1) @ calls"
        "map (\<lambda>(p, s, r). (p, s)) calls =
           concat (map (\<lambda>p. [(p, if vote_type = UPVOTED then UP else DOWN), (p, NONE)])
             (set_iter env post_ids))"
      by blast
    have "(if vote_type = UPVOTED then UP else DOWN) \<noteq> NONE"
      by simp
    from cleared_ids [OF this c(2)]
    have "map fst (filter (\<lambda>(p, s, r). s = NONE) calls) = set_iter env post_ids" .
    with c(1) show ?thesis
      unfolding discovery_proj(1) [OF assms(1)] by blast
  qed
  have once: "distinct (set_iter env post_ids) \<and> set (set_iter env post_ids) = post_ids"
    using assms(2) by (simp add: iter_ok_def)
  have returns: "\<exists>stats st'.
      remove_votes fuel env rm username vote_type delay callback st = Some (Inr (stats, st'))"
    if "sleep_accepted env (max pacing delay)"
    using that by (rule remove_votes_returns [OF assms(1)])
  from order once returns show ?thesis
    by blast
qed

theorem mutation_follows_set_iteration_witness:
  "iter_ok sample_env {''t3_b'', ''t3_a''} \<and>
   (\<exists>st1. get_voted_posts 5 sample_env ''bob'' UPVOTED configured_state =
      Some ({''t3_b'', ''t3_a''}, st1)) \<and>
   sleep_accepted sample_env (max pacing (1 / 2)) \<and>
   (\<exists>stats st' calls.
      remove_votes 5 sample_env sample_remover ''bob'' UPVOTED (1 / 2) None configured_state =
        Some (Inr (stats, st')) \<and>
      vote_calls (trace st') = vote_calls (trace configured_state) @ calls \<and>
      map fst (filter (\<lambda>(p, s, r). s = NONE) calls) = [''t3_a'', ''t3_b''])"
proof -
  from sample_discovery obtain st1 where
    d: "get_voted_posts 5 sample_env ''bob'' UPVOTED configured_state =
      Some ({''t3_b'', ''t3_a''}, st1)"
    by blast
  note t = mutation_follows_set_iteration [OF d sample_iter_ok(1), of sample_remover "1 / 2" None,
      unfolded sample_iteration]
  from t [THEN conjunct2, THEN conjunct2, THEN conjunct2, rule_format, OF sample_delays(1)]
  obtain stats st' where
    r: "remove_votes 5 sample_env sample_remover ''bob'' UPVOTED (1 / 2) None configured_state =
        Some (Inr (stats, st'))"
    by blast
  note ord = t [THEN conjunct1, rule_format, OF r]
  have run: "\<exists>stats st' calls.
      remove_votes 5 sample_env sample_remover ''bob'' UPVOTED (1 / 2) None configured_state =
        Some (Inr (stats, st')) \<and>
      vote_calls (trace st') = vote_calls (trace configured_state) @ calls \<and>
      map fst (filter (\<lambda>(p, s, r). s = NONE) calls) = [''t3_a'', ''t3_b'']"
    using r ord by (elim exE conjE) (intro exI conjI; assumption)
  have "\<exists>st1. get_voted_posts 5 sample_env ''bob'' UPVOTED configured_state =
      Some ({''t3_b'', ''t3_a''}, st1)"
    using d by (rule exI)
  with sample_iter_ok(1) sample_delays(1) [THEN conjunct1]
    sample_delays(1) [THEN conjunct2] run
  show ?thesis
    by (intro conjI)
qed

text \<open>
  The claim as stated fails: discovery meets \<open>t3_b\<close> on the first page and \<open>t3_a\<close> on the
  second, the set is iterated with \<open>t3_a\<close> first, and the pass clears \<open>t3_a\<close> before
  \<open>t3_b\<close>.
\<close>

theorem mutation_order_counterexample:
  "get_script sample_env 0 = GetResponse 200 page_b \<and>
   get_script sample_env 1 = GetResponse 200 page_a \<and>
   spec_discovery_order [page_b, page_a] = [''t3_b'', ''t3_a''] \<and>
   iter_ok sample_env {''t3_b'', ''t3_a''} \<and>
   map fst (filter (\<lambda>(p, s, r). s = NONE)
     (vote_calls (pass_trace
        (remove_votes 5 sample_env sample_remover ''bob'' UPVOTED (1 / 2) None
           configured_state)))) = [''t3_a'', ''t3_b'']"
proof -
  from sample_discovery obtain st1 where
    d: "get_voted_posts 5 sample_env ''bob'' UPVOTED configured_state =
      Some ({''t3_b'', ''t3_a''}, st1)"
    by blast
  from remove_votes_found_returns [OF sample_delays(1)] obtain res where
    "remove_votes_found sample_env sample_remover ''bob'' UPVOTED (1 / 2) None
      {''t3_b'', ''t3_a''} st1 = Inr res"
    by blast
  then obtain stats st' where
    found: "remove_votes_found sample_env sample_remover ''bob'' UPVOTED (1 / 2) None
      {''t3_b'', ''t3_a''} st1 = Inr (stats, st')"
    by (cases res) simp
  from remove_votes_found_calls [OF sample_iter_ok(1) found]
  obtain calls where
    c: "vote_calls (trace st') = vote_calls (trace st1) @ calls"
      "map (\<lambda>(p, s, r). (p, s)) calls =
         concat (map (\<lambda>p. [(p, if UPVOTED = UPVOTED then UP else DOWN), (p, NONE)])
           (set_iter sample_env {''t3_b'', ''t3_a''}))"
    by blast
  have "(if UPVOTED = UPVOTED then UP else DOWN) \<noteq> NONE"
    by simp
  from cleared_ids [OF this c(2)]
  have ids: "map fst (filter (\<lambda>(p, s, r). s = NONE) calls) = [''t3_a'', ''t3_b'']"
    unfolding sample_iteration .
  have "vote_calls (trace st1) = []"
    using discovery_proj(1) [OF d] by (simp add: configured_state_def vote_calls_def)
  with c(1) have "vote_calls (trace st') = calls"
    by simp
  moreover have "pass_trace
        (remove_votes 5 sample_env sample_remover ''bob'' UPVOTED (1 / 2) None
           configured_state) = trace st'"
    by (simp add: remove_votes_of [OF d] found pass_trace_def)
  ultimately show ?thesis
    using ids sample_order sample_iter_ok(1)
    by (simp add: sample_envs first_then_def)
qed

section \<open>A delay over the limit of \<open>time.sleep\<close>\<close>

text \<open>
  With a delay of \<open>1e10\<close> seconds the pass over the two sample identifiers raises at the
  pause after its first item, in the backend and in the standalone script.
\<close>

lemma huge_delay_raises:
  "remove_votes 5 sample_env sample_remover ''bob'' UPVOTED 10000000000 None configured_state =
     Some (Inl OverflowError)"
  "simple_remove_votes 5 sample_env sample_remover ''bob'' UPVOTED 10000000000
     configured_state = Some (Inl OverflowError)"
proof -
  from sample_discovery obtain st1 where
    d: "get_voted_posts 5 sample_env ''bob'' UPVOTED configured_state =
      Some ({''t3_b'', ''t3_a''}, st1)"
    by blast
  have c: "2 \<le> card {''t3_b'', ''t3_a''}"
    by simp
  from remove_votes_found_overflow [OF sample_iter_ok(1) c sample_delays(5)]
  show "remove_votes 5 sample_env sample_remover ''bob'' UPVOTED 10000000000 None
      configured_state = Some (Inl OverflowError)"
    by (simp add: remove_votes_of [OF d])
  obtain r1 s1 where v1: "vote sample_env sample_remover ''t3_a'' UP st1 = (r1, s1)"
    by (cases "vote sample_env sample_remover ''t3_a'' UP st1")
  obtain r2 s3 where
    v2: "vote sample_env sample_remover ''t3_a'' NONE (emit (ESleep pacing) s1) = (r2, s3)"
    by (cases "vote sample_env sample_remover ''t3_a'' NONE (emit (ESleep pacing) s1)")
  have "simple_remove_votes_found sample_env sample_remover UPVOTED 10000000000
      {''t3_b'', ''t3_a''} st1 = Inl OverflowError"
    using v1 v2 sample_delays(5) pacing_pos pacing_below_limit
    by (simp add: simple_remove_votes_found_def sample_iteration time_sleep_def Let_def)
  then show "simple_remove_votes 5 sample_env sample_remover ''bob'' UPVOTED 10000000000
      configured_state = Some (Inl OverflowError)"
    by (simp add: simple_remove_votes_of [OF d])
qed

end
